theory Spec2Isabelle
  imports Main
begin

section \<open>The outside world of fetch\_vahan.py\<close>

text \<open>
  The downloader drives a Selenium browser session and watches a download directory.
  Both are outside the program, so the model takes them as an environment \<open>env\<close>
  that answers every call, and threads a \<open>world\<close> that holds what the program can
  observe or change: a clock in milliseconds, the log of the calls it made, the content
  of the download directory and the console output.

  Python exceptions are values of \<open>exn\<close>. Every class but \<open>KeyboardInterrupt\<close>
  derives from \<open>Exception\<close>, which is what \<open>except Exception\<close> catches.
\<close>

datatype exn = TimeoutException | ElementClickInterceptedException | NoSuchElementException
  | WebDriverException | OSError | KeyboardInterrupt

fun is_Exception :: "exn \<Rightarrow> bool" where
  "is_Exception KeyboardInterrupt = False"
| "is_Exception _ = True"

datatype By = ID | XPATH | CSS_SELECTOR

type_synonym elem = nat

text \<open>The calls that leave the program: the driver's methods and the file operations.\<close>

datatype call =
    Get string
  | WaitClickable By string
  | Click elem
  | ExecuteScript string "elem option"
  | FindElement By string
  | FindElements By string
  | SaveScreenshot string nat
  | OpenFile string nat
  | PageSource
  | WriteFile string nat
  | Unlink string
  | Quit

text \<open>The console: one constructor for each \<open>print\<close> of the source.\<close>

datatype msg =
    DebugSaved string nat
  | DebugFailed exn
  | InfoPageLoaded string
  | WarnYaxis
  | ErrorYaxis
  | WarnOption string
  | ErrorOption string
  | WarnRefresh
  | ErrorDownload
  | OkDownloaded string
  | WarnNoFile
  | StartingCycle string
  | InfoAttemptFailed nat string
  | ErrorUnexpected nat string exn
  | FailedAll string
  | SummaryHeader
  | SummaryDownloaded string
  | SummaryNone

text \<open>
  The environment. \<open>raises env n c\<close> tells whether the call \<open>c\<close>, made as call
  number \<open>n\<close> of the run, raises; \<open>clickable env n by sel\<close> gives the element that
  becomes clickable and after how many milliseconds (\<open>None\<close>: never);
  \<open>present env n by sel\<close> lists the elements \<open>find_elements\<close> sees; \<open>fs_step env t d\<close>
  is what the browser and everybody else made of the download directory \<open>d\<close> when the
  clock reaches \<open>t\<close>; \<open>first_in_set env xs\<close> is the member of \<open>xs\<close> that a Python
  \<open>for\<close> loop over the set of the \<open>xs\<close> meets first (the order of a set is that of the
  hashes, not one the program chooses).
\<close>

record env =
  raises :: "nat \<Rightarrow> call \<Rightarrow> exn option"
  clickable :: "nat \<Rightarrow> By \<Rightarrow> string \<Rightarrow> (elem \<times> nat) option"
  present :: "nat \<Rightarrow> By \<Rightarrow> string \<Rightarrow> elem list"
  fs_step :: "nat \<Rightarrow> (string \<times> nat) list \<Rightarrow> (string \<times> nat) list"
  first_in_set :: "string list \<Rightarrow> string"

record world =
  clock :: nat
  calls :: "call list"
  dir :: "(string \<times> nat) list"
  out :: "msg list"

definition sleep :: "env \<Rightarrow> nat \<Rightarrow> world \<Rightarrow> world" where
  "sleep env ms w = w\<lparr>clock := clock w + ms, dir := fs_step env (clock w + ms) (dir w)\<rparr>"

definition say :: "msg \<Rightarrow> world \<Rightarrow> world" where
  "say m w = w\<lparr>out := out w @ [m]\<rparr>"

definition calling :: "env \<Rightarrow> call \<Rightarrow> world \<Rightarrow> exn option \<times> world" where
  "calling env c w = (raises env (length (calls w)) c, w\<lparr>calls := calls w @ [c]\<rparr>)"

text \<open>A call that returns nothing: \<open>driver.get\<close>, \<open>el.click\<close>, \<open>execute_script\<close>, ...\<close>

definition invoke :: "env \<Rightarrow> call \<Rightarrow> world \<Rightarrow> (exn + unit) \<times> world" where
  "invoke env c w = (case calling env c w of
      (Some e, w') \<Rightarrow> (Inl e, w')
    | (None, w') \<Rightarrow> (Inr (), w'))"

text \<open>
  \<open>wait.until(EC.element_to_be_clickable((by, sel)))\<close> on a \<open>WebDriverWait\<close> whose timeout
  is \<open>wait\<close> milliseconds: the element when it becomes clickable in time, else
  \<open>TimeoutException\<close> once the wait's own timeout has passed.
\<close>

definition until_clickable :: "env \<Rightarrow> nat \<Rightarrow> By \<Rightarrow> string \<Rightarrow> world \<Rightarrow> (exn + elem) \<times> world" where
  "until_clickable env wait by sel w = (case calling env (WaitClickable by sel) w of
      (Some e, w') \<Rightarrow> (Inl e, w')
    | (None, w') \<Rightarrow> (case clickable env (length (calls w)) by sel of
          None \<Rightarrow> (Inl TimeoutException, sleep env wait w')
        | Some (el, ms) \<Rightarrow>
            if ms \<le> wait then (Inr el, sleep env ms w')
            else (Inl TimeoutException, sleep env wait w')))"

definition find_elements :: "env \<Rightarrow> By \<Rightarrow> string \<Rightarrow> world \<Rightarrow> (exn + elem list) \<times> world" where
  "find_elements env by sel w = (case calling env (FindElements by sel) w of
      (Some e, w') \<Rightarrow> (Inl e, w')
    | (None, w') \<Rightarrow> (Inr (present env (length (calls w)) by sel), w'))"

definition find_element :: "env \<Rightarrow> By \<Rightarrow> string \<Rightarrow> world \<Rightarrow> (exn + elem) \<times> world" where
  "find_element env by sel w = (case calling env (FindElement by sel) w of
      (Some e, w') \<Rightarrow> (Inl e, w')
    | (None, w') \<Rightarrow> (case present env (length (calls w)) by sel of
          [] \<Rightarrow> (Inl NoSuchElementException, w')
        | el # _ \<Rightarrow> (Inr el, w')))"

text \<open>\<open>f.unlink()\<close>: the file leaves the directory, or the call raises and it stays.\<close>

definition unlink :: "env \<Rightarrow> string \<Rightarrow> world \<Rightarrow> (exn + unit) \<times> world" where
  "unlink env f w = (case calling env (Unlink f) w of
      (Some e, w') \<Rightarrow> (Inl e, w')
    | (None, w') \<Rightarrow>
        if f \<in> fst ` set (dir w') then (Inr (), w'\<lparr>dir := filter (\<lambda>p. fst p \<noteq> f) (dir w')\<rparr>)
        else (Inl OSError, w'))"

section \<open>Configuration\<close>

definition URL :: string where
  "URL = ''https://vahan.parivahan.gov.in/vahan4dashboard/vahan/view/reportview.xhtml''"

definition YAXIS_LABEL_CANDIDATES :: "(string \<times> string) list" where
  "YAXIS_LABEL_CANDIDATES =
    [(''id'', ''yaxisVar_label''),
     (''xpath'', ''//label[contains(@id,'yaxis') or contains(@for,'yaxis')]''),
     (''xpath'', ''//span[contains(text(), 'Y Axis') or contains(., 'Y Axis')]'')]"

definition YAXIS_OPTIONS :: "string list" where
  "YAXIS_OPTIONS = [''Maker'', ''Vehicle Category'', ''Vehicle Type'', ''Maker Name'', ''Category'']"

definition REFRESH_CANDIDATES :: "(string \<times> string) list" where
  "REFRESH_CANDIDATES =
    [(''id'', ''j_idt61''),
     (''xpath'', ''//button[contains(., 'Refresh') or contains(@title,'Refresh')]''),
     (''xpath'', ''//a[contains(., 'Refresh') or contains(@title,'Refresh')]''),
     (''css'', ''button.ui-button'')]"

definition DOWNLOAD_CANDIDATES :: "(string \<times> string) list" where
  "DOWNLOAD_CANDIDATES =
    [(''id'', ''vchgroupTable:xls''),
     (''xpath'', ''//a[contains(@id,'xls') or contains(@href,'.xls') or contains(.,'Export') or contains(.,'Excel')]''),
     (''xpath'', ''//button[contains(.,'Excel') or contains(.,'Export')]''),
     (''css'', ''a[download], a[href*='.xls'], a[href*='.xlsx']'')]"

definition SCROLL_JS :: string where
  "SCROLL_JS = ''arguments[0].scrollIntoView(true);''"

definition CLICK_JS :: string where
  "CLICK_JS = ''arguments[0].click();''"

section \<open>Sequencing, exceptions and handlers\<close>

text \<open>
  A statement is a function from the world to a result and the new world. \<open>bnd\<close> is
  \<open>;\<close>: an exception of the first statement skips the second. \<open>catch m handles h\<close> is
  \<open>try: m except C: h\<close>, where \<open>handles\<close> tells the instances of \<open>C\<close>. \<open>try_finally\<close>
  is \<open>try: m finally: c\<close>.
\<close>

type_synonym 'a prog = "world \<Rightarrow> (exn + 'a) \<times> world"

definition return :: "'a \<Rightarrow> 'a prog" where
  "return x w = (Inr x, w)"

definition effect :: "(world \<Rightarrow> world) \<Rightarrow> unit prog" where
  "effect g w = (Inr (), g w)"

definition bnd :: "'a prog \<Rightarrow> ('a \<Rightarrow> 'b prog) \<Rightarrow> 'b prog" where
  "bnd m f w = (case m w of
      (Inl e, w') \<Rightarrow> (Inl e, w')
    | (Inr x, w') \<Rightarrow> f x w')"

definition catch :: "'a prog \<Rightarrow> (exn \<Rightarrow> bool) \<Rightarrow> (exn \<Rightarrow> 'a prog) \<Rightarrow> 'a prog" where
  "catch m handles h w = (case m w of
      (Inl e, w') \<Rightarrow> if handles e then h e w' else (Inl e, w')
    | (Inr x, w') \<Rightarrow> (Inr x, w'))"

definition try_finally :: "'a prog \<Rightarrow> unit prog \<Rightarrow> 'a prog" where
  "try_finally m c w = (case m w of
      (r, w') \<Rightarrow> (case c w' of
          (Inl e, w'') \<Rightarrow> (Inl e, w'')
        | (Inr _, w'') \<Rightarrow> (r, w'')))"

definition is_timeout :: "exn \<Rightarrow> bool" where
  "is_timeout e = (e = TimeoutException)"

section \<open>Utility helpers\<close>

text \<open>\<open>save_debug_snapshot\<close> (lines 63-73). The timestamp is the clock.\<close>

definition save_debug_snapshot :: "env \<Rightarrow> string \<Rightarrow> unit prog" where
  "save_debug_snapshot env name_prefix w =
    (let ts = clock w in
     catch
       (bnd (invoke env (SaveScreenshot name_prefix ts)) (\<lambda>_.
        bnd (invoke env (OpenFile name_prefix ts)) (\<lambda>_.
        bnd (invoke env PageSource) (\<lambda>_.
        bnd (invoke env (WriteFile name_prefix ts)) (\<lambda>_.
        effect (say (DebugSaved name_prefix ts)))))))
       is_Exception
       (\<lambda>e. effect (say (DebugFailed e))) w)"

definition by_of :: "string \<Rightarrow> By option" where
  "by_of by_type =
    (if by_type = ''id'' then Some ID
     else if by_type = ''xpath'' then Some XPATH
     else if by_type = ''css'' then Some CSS_SELECTOR
     else None)"

text \<open>
  The click of \<open>try_find_click\<close> (lines 90-98): \<open>el.click()\<close>; on any \<open>Exception\<close>
  scroll the element into view, pause 0.3 s and click again; on any \<open>Exception\<close> of
  that click, click through JavaScript.
\<close>

definition click_with_fallback :: "env \<Rightarrow> elem \<Rightarrow> unit prog" where
  "click_with_fallback env el =
    catch (invoke env (Click el)) is_Exception (\<lambda>_.
      bnd (invoke env (ExecuteScript SCROLL_JS (Some el))) (\<lambda>_.
      bnd (effect (sleep env 300)) (\<lambda>_.
      catch (invoke env (Click el)) is_Exception (\<lambda>_.
        invoke env (ExecuteScript CLICK_JS (Some el))))))"

text \<open>
  \<open>try_find_click\<close> (lines 75-101). \<open>wait\<close> is the timeout of the \<open>WebDriverWait\<close>
  object it is given; its own parameter \<open>timeout\<close> occurs nowhere in its body.
\<close>

definition try_find_click :: "env \<Rightarrow> nat \<Rightarrow> string \<Rightarrow> string \<Rightarrow> nat \<Rightarrow> bool prog" where
  "try_find_click env wait selector by_type timeout =
    catch
      (case by_of by_type of
         None \<Rightarrow> return False
       | Some by \<Rightarrow>
           bnd (until_clickable env wait by selector) (\<lambda>el.
           bnd (click_with_fallback env el) (\<lambda>_.
           return True)))
      is_timeout
      (\<lambda>_. return False)"

text \<open>\<open>find_list_item_and_click\<close> (lines 103-125).\<close>

definition patterns :: "string \<Rightarrow> string list" where
  "patterns option_text =
    [''//li[@data-label='' @ [CHR 0x27] @ option_text @ [CHR 0x27] @ '']'',
     ''//li[normalize-space()='' @ [CHR 0x27] @ option_text @ [CHR 0x27] @ '']'',
     ''//a[normalize-space()='' @ [CHR 0x27] @ option_text @ [CHR 0x27] @ '']'',
     ''//span[normalize-space()='' @ [CHR 0x27] @ option_text @ [CHR 0x27] @ '']'',
     ''//div[contains(@class,'ui-select')]//li[contains(.,'' @ [CHR 0x27] @ option_text
       @ [CHR 0x27] @ '')]'']"

fun click_first_pattern :: "env \<Rightarrow> nat \<Rightarrow> string list \<Rightarrow> bool prog" where
  "click_first_pattern env wait [] = return False"
| "click_first_pattern env wait (p # ps) =
    catch
      (bnd (until_clickable env wait XPATH p) (\<lambda>el.
       bnd (invoke env (ExecuteScript SCROLL_JS (Some el))) (\<lambda>_.
       bnd (effect (sleep env 200)) (\<lambda>_.
       bnd (invoke env (Click el)) (\<lambda>_.
       return True)))))
      is_timeout
      (\<lambda>_. click_first_pattern env wait ps)"

definition find_list_item_and_click :: "env \<Rightarrow> nat \<Rightarrow> string \<Rightarrow> bool prog" where
  "find_list_item_and_click env wait option_text =
    click_first_pattern env wait (patterns option_text)"

section \<open>The download watcher\<close>

text \<open>
  File names. \<open>suffix_of\<close> is \<open>PurePath.suffix\<close> on a file name: the part from the
  last dot on, unless that dot is the first or the last character. \<open>lower\<close> is
  \<open>str.lower\<close> on ASCII.
\<close>

definition suffix_of :: "string \<Rightarrow> string" where
  "suffix_of name =
    (if CHR ''.'' \<notin> set name then []
     else let k = length (takeWhile (\<lambda>c. c \<noteq> CHR ''.'') (rev name));
              i = length name - 1 - k
          in if 0 < i \<and> i < length name - 1 then drop i name else [])"

definition lower_char :: "char \<Rightarrow> char" where
  "lower_char c =
    (let n = (of_char c :: nat) in if 65 \<le> n \<and> n \<le> 90 then char_of (n + 32) else c)"

definition lower :: "string \<Rightarrow> string" where
  "lower s = map lower_char s"

definition accepted :: "string \<Rightarrow> bool" where
  "accepted f = (lower (suffix_of f) \<in> set [''.xls'', ''.xlsx'', ''.csv''])"

definition names :: "(string \<times> nat) list \<Rightarrow> string list" where
  "names d = map fst d"

text \<open>
  The inner loop of \<open>wait_for_download_completion\<close> (lines 142-149). \<open>f.stat()\<close> raises
  when the file is gone.
\<close>

function size_loop :: "env \<Rightarrow> nat \<Rightarrow> nat \<Rightarrow> string \<Rightarrow> int \<Rightarrow> nat \<Rightarrow> world \<Rightarrow> (exn + unit) \<times> world" where
  "size_loop env start timeout f prev_size stable_count w =
    (if stable_count < 3 \<and> int (clock w) - int start < int timeout then
       (case map_of (dir w) f of
          None \<Rightarrow> (Inl OSError, w)
        | Some size' \<Rightarrow>
            size_loop env start timeout f (int size')
              (if int size' = prev_size then stable_count + 1 else 0)
              (sleep env 500 w))
     else (Inr (), w))"
  by pat_completeness auto
termination
  by (relation "measure (\<lambda>(env, start, timeout, f, prev_size, stable_count, w).
        (start + timeout) - clock w)") (auto simp: sleep_def)

text \<open>
  \<open>for f in new: if f.suffix.lower() in [...]: ...; return f\<close> (lines 137-150). \<open>new\<close> is
  a Python set: the loop skips the members without an accepted suffix and stops at the
  first member with one, and which of them comes first is up to the environment. A choice
  outside the accepted members is not a choice; the model then takes the first of the
  listing.
\<close>

definition first_accepted :: "env \<Rightarrow> string list \<Rightarrow> string option" where
  "first_accepted env new =
    (case filter accepted new of
       [] \<Rightarrow> None
     | f # fs \<Rightarrow>
         Some (if first_in_set env (f # fs) \<in> set (f # fs) then first_in_set env (f # fs)
               else f))"

text \<open>
  The outer loop (lines 133-152). The new file with an accepted suffix that the \<open>for\<close>
  loop meets first is the one the function returns, whatever the inner loop saw.
\<close>

function poll_loop :: "env \<Rightarrow> nat \<Rightarrow> nat \<Rightarrow> string list \<Rightarrow> world \<Rightarrow> (exn + string option) \<times> world" where
  "poll_loop env start timeout before_names w =
    (if int (clock w) - int start < int timeout then
       (let after = names (dir w);
            new = filter (\<lambda>f. f \<notin> set before_names) after
        in case first_accepted env new of
             Some f \<Rightarrow>
               bnd (size_loop env start timeout f (- 1) 0) (\<lambda>_. return (Some f)) w
           | None \<Rightarrow> poll_loop env start timeout before_names (sleep env 500 w))
     else (Inr None, w))"
  by pat_completeness auto
termination
  by (relation "measure (\<lambda>(env, start, timeout, before_names, w). (start + timeout) - clock w)")
    (auto simp: sleep_def)

definition wait_for_download_completion :: "env \<Rightarrow> nat \<Rightarrow> string option prog" where
  "wait_for_download_completion env timeout w =
    (let start = clock w;
         before_names = names (dir w)
     in poll_loop env start timeout before_names w)"

section \<open>One retrieval cycle\<close>

text \<open>
  The loops \<open>for by_type, sel in CANDIDATES: if try_find_click(...): flag = True; break\<close>
  of lines 167-170, 207-210 and 225-228: the value is the flag.
\<close>

fun click_first_candidate :: "env \<Rightarrow> nat \<Rightarrow> nat \<Rightarrow> (string \<times> string) list \<Rightarrow> bool prog" where
  "click_first_candidate env wait timeout [] = return False"
| "click_first_candidate env wait timeout ((by_type, sel) # rest) =
    bnd (try_find_click env wait sel by_type timeout) (\<lambda>clicked.
      if clicked then return True
      else click_first_candidate env wait timeout rest)"

definition YAXIS_FALLBACK :: string where
  "YAXIS_FALLBACK = ''//*[contains(@id,'yaxis') or contains(@for,'yaxis') or contains(.,'Y Axis')]''"

text \<open>Step 1, lines 165-179: the value is \<open>opened\<close>.\<close>

definition open_yaxis :: "env \<Rightarrow> nat \<Rightarrow> bool prog" where
  "open_yaxis env wait =
    bnd (click_first_candidate env wait 8000 YAXIS_LABEL_CANDIDATES) (\<lambda>opened.
      if opened then return True
      else
        bnd (effect (say WarnYaxis)) (\<lambda>_.
        catch
          (bnd (find_element env XPATH YAXIS_FALLBACK) (\<lambda>el.
           bnd (invoke env (ExecuteScript CLICK_JS (Some el))) (\<lambda>_.
           return True)))
          is_Exception
          (\<lambda>_. return False)))"

text \<open>Step 2, lines 188-197: the value is \<open>chosen\<close>. \<open>contains a b\<close> is \<open>a in b\<close>.\<close>

fun contains :: "string \<Rightarrow> string \<Rightarrow> bool" where
  "contains a [] = (a = [])"
| "contains a (c # cs) = (take (length a) (c # cs) = a \<or> contains a cs)"

fun fuzzy_loop :: "env \<Rightarrow> nat \<Rightarrow> string \<Rightarrow> string list \<Rightarrow> bool prog" where
  "fuzzy_loop env wait option_label [] = return False"
| "fuzzy_loop env wait option_label (candidate # rest) =
    (if contains (lower option_label) (lower candidate) then
       bnd (find_list_item_and_click env wait candidate) (\<lambda>clicked.
         if clicked then return True
         else fuzzy_loop env wait option_label rest)
     else fuzzy_loop env wait option_label rest)"

definition choose_option :: "env \<Rightarrow> nat \<Rightarrow> string \<Rightarrow> bool prog" where
  "choose_option env wait option_label =
    bnd (find_list_item_and_click env wait option_label) (\<lambda>chosen.
      if chosen then return True
      else
        bnd (effect (say (WarnOption option_label))) (\<lambda>_.
        fuzzy_loop env wait option_label YAXIS_OPTIONS))"

text \<open>Step 3, lines 205-217: refresh is best effort.\<close>

definition REFRESH_JS :: string where
  "REFRESH_JS = ''if(window.PF && PF('dashboard') ) { /* no-op */ }''"

definition click_refresh :: "env \<Rightarrow> nat \<Rightarrow> unit prog" where
  "click_refresh env wait =
    bnd (click_first_candidate env wait 10000 REFRESH_CANDIDATES) (\<lambda>refreshed.
      if refreshed then return ()
      else
        bnd (effect (say WarnRefresh)) (\<lambda>_.
        catch (invoke env (ExecuteScript REFRESH_JS None)) is_Exception (\<lambda>_. return ())))"

text \<open>
  Step 4, lines 222-244: the value is \<open>dl_candidate_clicked\<close>. \<open>before_files\<close> is the
  listing of the download directory taken here, before the export click; the source
  never reads it again.
\<close>

definition LINKS_XPATH :: string where
  "LINKS_XPATH = ''//a[contains(@href,'.xls') or contains(@href,'.xlsx') or contains(.,'Download') or contains(.,'Export')]''"

fun click_first_link :: "env \<Rightarrow> elem list \<Rightarrow> bool prog" where
  "click_first_link env [] = return False"
| "click_first_link env (l # ls) =
    catch
      (bnd (invoke env (ExecuteScript SCROLL_JS (Some l))) (\<lambda>_.
       bnd (effect (sleep env 200)) (\<lambda>_.
       bnd (invoke env (Click l)) (\<lambda>_.
       return True))))
      is_Exception
      (\<lambda>_. click_first_link env ls)"

definition click_export :: "env \<Rightarrow> nat \<Rightarrow> bool prog" where
  "click_export env wait w =
    (let before_files = names (dir w)
     in bnd (click_first_candidate env wait 8000 DOWNLOAD_CANDIDATES) (\<lambda>dl_candidate_clicked.
          if dl_candidate_clicked then return True
          else
            catch
              (bnd (find_elements env XPATH LINKS_XPATH) (\<lambda>links. click_first_link env links))
              is_Exception
              (\<lambda>_. return False)) w)"

text \<open>Steps 4 and 5 together, lines 222-260: the value is what the cycle returns.\<close>

definition export_and_wait :: "env \<Rightarrow> nat \<Rightarrow> string \<Rightarrow> string option prog" where
  "export_and_wait env wait option_label =
    bnd (click_export env wait) (\<lambda>dl_candidate_clicked.
      if \<not> dl_candidate_clicked then
        bnd (effect (say ErrorDownload)) (\<lambda>_.
        bnd (save_debug_snapshot env (''no_download_'' @ option_label)) (\<lambda>_.
        return None))
      else
        bnd (wait_for_download_completion env 25000) (\<lambda>downloaded.
          case downloaded of
            Some f \<Rightarrow> bnd (effect (say (OkDownloaded f))) (\<lambda>_. return (Some f))
          | None \<Rightarrow>
              bnd (effect (say WarnNoFile)) (\<lambda>_.
              bnd (save_debug_snapshot env (''no_file_'' @ option_label)) (\<lambda>_.
              return None))))"

text \<open>\<open>perform_download_cycle\<close> (lines 154-260).\<close>

definition perform_download_cycle :: "env \<Rightarrow> nat \<Rightarrow> string \<Rightarrow> bool \<Rightarrow> string option prog" where
  "perform_download_cycle env wait option_label verbose =
    bnd (invoke env (Get URL)) (\<lambda>_.
    bnd (effect (\<lambda>w. if verbose then say (InfoPageLoaded option_label) w else w)) (\<lambda>_.
    bnd (effect (sleep env 2000)) (\<lambda>_.
    bnd (open_yaxis env wait) (\<lambda>opened.
      if \<not> opened then
        bnd (effect (say ErrorYaxis)) (\<lambda>_.
        bnd (save_debug_snapshot env ''no_yaxis'') (\<lambda>_.
        return None))
      else
        bnd (effect (sleep env 500)) (\<lambda>_.
        bnd (choose_option env wait option_label) (\<lambda>chosen.
          if \<not> chosen then
            bnd (effect (say (ErrorOption option_label))) (\<lambda>_.
            bnd (save_debug_snapshot env (''no_option_'' @ option_label)) (\<lambda>_.
            return None))
          else
            bnd (effect (sleep env 1000)) (\<lambda>_.
            bnd (click_refresh env wait) (\<lambda>_.
            bnd (effect (sleep env 3000)) (\<lambda>_.
            export_and_wait env wait option_label)))))))))"

section \<open>The run\<close>

text \<open>
  \<open>cleanup_old_downloads\<close> (lines 262-269). \<open>glob_match pat name\<close> is the match of a
  pattern \<open>*ext\<close> against a file name, case sensitive.
\<close>

definition glob_match :: "string \<Rightarrow> string \<Rightarrow> bool" where
  "glob_match pat name =
    (let ext = tl pat
     in length ext \<le> length name \<and> drop (length name - length ext) name = ext)"

fun unlink_each :: "env \<Rightarrow> string list \<Rightarrow> unit prog" where
  "unlink_each env [] = return ()"
| "unlink_each env (f # fs) =
    bnd (catch (unlink env f) is_Exception (\<lambda>_. return ())) (\<lambda>_. unlink_each env fs)"

fun cleanup_loop :: "env \<Rightarrow> string list \<Rightarrow> unit prog" where
  "cleanup_loop env [] = return ()"
| "cleanup_loop env (ext # exts) =
    bnd (\<lambda>w. unlink_each env (filter (glob_match ext) (names (dir w))) w) (\<lambda>_.
    cleanup_loop env exts)"

definition cleanup_old_downloads :: "env \<Rightarrow> unit prog" where
  "cleanup_old_downloads env = cleanup_loop env [''*.xls'', ''*.xlsx'', ''*.csv'']"

text \<open>
  The body of \<open>for attempt in range(1, 4)\<close> (lines 303-314). \<open>Some f\<close>: the cycle
  returned \<open>f\<close>, which is appended and the loop is left; \<open>None\<close>: the next attempt.
\<close>

definition attempt_once :: "env \<Rightarrow> nat \<Rightarrow> string \<Rightarrow> nat \<Rightarrow> string option prog" where
  "attempt_once env wait opt attempt =
    catch
      (bnd (perform_download_cycle env wait opt True) (\<lambda>result.
         case result of
           Some f \<Rightarrow> return (Some f)
         | None \<Rightarrow>
             bnd (effect (say (InfoAttemptFailed attempt opt))) (\<lambda>_.
             bnd (effect (sleep env 2000)) (\<lambda>_.
             return None))))
      is_Exception
      (\<lambda>e.
         bnd (effect (say (ErrorUnexpected attempt opt e))) (\<lambda>_.
         bnd (save_debug_snapshot env (''exception_'' @ opt)) (\<lambda>_.
         bnd (effect (sleep env 2000)) (\<lambda>_.
         return None))))"

text \<open>The retry loop with its \<open>else\<close> branch (lines 302-316).\<close>

fun attempts_loop :: "env \<Rightarrow> nat \<Rightarrow> string \<Rightarrow> nat list \<Rightarrow> string list \<Rightarrow> string list prog" where
  "attempts_loop env wait opt [] downloaded_files =
    bnd (effect (say (FailedAll opt))) (\<lambda>_. return downloaded_files)"
| "attempts_loop env wait opt (attempt # rest) downloaded_files =
    bnd (attempt_once env wait opt attempt) (\<lambda>r.
      case r of
        Some f \<Rightarrow> return (downloaded_files @ [f])
      | None \<Rightarrow> attempts_loop env wait opt rest downloaded_files)"

text \<open>The loop over the targets (lines 300-316).\<close>

fun options_loop :: "env \<Rightarrow> nat \<Rightarrow> string list \<Rightarrow> string list \<Rightarrow> string list prog" where
  "options_loop env wait [] downloaded_files = return downloaded_files"
| "options_loop env wait (opt # opts) downloaded_files =
    bnd (effect (say (StartingCycle opt))) (\<lambda>_.
    bnd (attempts_loop env wait opt [1, 2, 3] downloaded_files) (\<lambda>downloaded_files'.
    options_loop env wait opts downloaded_files'))"

text \<open>The summary (lines 318-323).\<close>

definition summary :: "string list \<Rightarrow> world \<Rightarrow> world" where
  "summary downloaded_files w =
    (if downloaded_files \<noteq> [] then
       w\<lparr>out := out w @ SummaryHeader # map SummaryDownloaded downloaded_files\<rparr>
     else w\<lparr>out := out w @ [SummaryHeader, SummaryNone]\<rparr>)"

text \<open>
  \<open>main\<close> from the creation of the driver on (lines 291-328): the \<open>try\<close> block over the
  targets \<open>options_to_fetch\<close>, and the \<open>finally\<close> block that quits the driver.
\<close>

definition run_targets :: "env \<Rightarrow> nat \<Rightarrow> string list \<Rightarrow> string list prog" where
  "run_targets env wait options_to_fetch =
    bnd (cleanup_old_downloads env) (\<lambda>_.
    bnd (options_loop env wait options_to_fetch []) (\<lambda>downloaded_files.
    bnd (effect (summary downloaded_files)) (\<lambda>_.
    return downloaded_files)))"

definition quit_driver :: "env \<Rightarrow> unit prog" where
  "quit_driver env = catch (invoke env Quit) is_Exception (\<lambda>_. return ())"

definition main_with :: "env \<Rightarrow> string list \<Rightarrow> string list prog" where
  "main_with env options_to_fetch =
    try_finally (run_targets env 20000 options_to_fetch) (quit_driver env)"

definition main :: "env \<Rightarrow> string list prog" where
  "main env = main_with env [''Maker'', ''Vehicle Category'']"

declare size_loop.simps [simp del] poll_loop.simps [simp del]

section \<open>Notions for the statements\<close>

fun step_call :: "call \<Rightarrow> bool" where
  "step_call (Get _) = False"
| "step_call (Unlink _) = False"
| "step_call Quit = False"
| "step_call _ = True"

fun step_msg :: "msg \<Rightarrow> bool" where
  "step_msg (StartingCycle _) = False"
| "step_msg (FailedAll _) = False"
| "step_msg SummaryHeader = False"
| "step_msg (SummaryDownloaded _) = False"
| "step_msg SummaryNone = False"
| "step_msg _ = True"

definition extends :: "(call \<Rightarrow> bool) \<Rightarrow> (msg \<Rightarrow> bool) \<Rightarrow> world \<Rightarrow> world \<Rightarrow> bool" where
  "extends ok okm w w' =
    ((\<exists>cs. calls w' = calls w @ cs \<and> list_all ok cs) \<and>
     (\<exists>ms. out w' = out w @ ms \<and> list_all okm ms))"

definition confined :: "(call \<Rightarrow> bool) \<Rightarrow> (msg \<Rightarrow> bool) \<Rightarrow> 'a prog \<Rightarrow> bool" where
  "confined ok okm m = (\<forall>w. extends ok okm w (snd (m w)))"

definition cycles_started :: "world \<Rightarrow> nat" where
  "cycles_started w = length (filter (\<lambda>c. c = Get URL) (calls w))"

definition starts_with :: "call \<Rightarrow> (call \<Rightarrow> bool) \<Rightarrow> (msg \<Rightarrow> bool) \<Rightarrow> 'a prog \<Rightarrow> bool" where
  "starts_with c ok okm m =
    (\<forall>w. (\<exists>cs. calls (snd (m w)) = calls w @ c # cs \<and> list_all ok cs) \<and>
         (\<exists>ms. out (snd (m w)) = out w @ ms \<and> list_all okm ms))"

definition not_quit :: "call \<Rightarrow> bool" where
  "not_quit c = (c \<noteq> Quit)"

definition any_msg :: "msg \<Rightarrow> bool" where
  "any_msg m = True"


definition is_unlink :: "call \<Rightarrow> bool" where
  "is_unlink c = (case c of Unlink _ \<Rightarrow> True | _ \<Rightarrow> False)"

definition no_msg :: "msg \<Rightarrow> bool" where
  "no_msg m = False"

definition unresolved :: "env \<Rightarrow> nat \<Rightarrow> string \<times> string \<Rightarrow> bool" where
  "unresolved env wait c =
    (\<exists>by. by_of (fst c) = Some by
      \<and> (\<forall>n. raises env n (WaitClickable by (snd c)) = None
             \<or> raises env n (WaitClickable by (snd c)) = Some TimeoutException)
      \<and> (\<forall>n. case clickable env n by (snd c) of None \<Rightarrow> True | Some (el, ms) \<Rightarrow> wait < ms))"

definition wait_call :: "string \<times> string \<Rightarrow> call" where
  "wait_call c = WaitClickable (the (by_of (fst c))) (snd c)"

definition tiers :: "By \<Rightarrow> string \<Rightarrow> elem \<Rightarrow> call list" where
  "tiers by sel el =
    [WaitClickable by sel, Click el, ExecuteScript SCROLL_JS (Some el), Click el,
     ExecuteScript CLICK_JS (Some el)]"

definition is_click :: "call \<Rightarrow> bool" where
  "is_click c = (case c of Click _ \<Rightarrow> True | _ \<Rightarrow> False)"

definition old_download :: "string \<Rightarrow> bool" where
  "old_download f = (glob_match ''*.xls'' f \<or> glob_match ''*.xlsx'' f \<or> glob_match ''*.csv'' f)"

text \<open>
  The worlds along the ladder of \<open>try_find_click\<close>. \<open>logged cs w\<close> is \<open>w\<close> with the
  calls \<open>cs\<close> added to the log. \<open>resolves env wait w by_type by sel el ms\<close>: the locator
  kind is known, the wait made in \<open>w\<close> raises nothing and the element \<open>el\<close> becomes
  clickable after \<open>ms\<close> milliseconds, within the timeout of the wait. \<open>after_wait\<close> is
  the world when that wait has returned, \<open>after_retry\<close> the world after the first direct
  click, the scroll into view and the pause of 0.3 s.
\<close>

definition logged :: "call list \<Rightarrow> world \<Rightarrow> world" where
  "logged cs w = w\<lparr>calls := calls w @ cs\<rparr>"

definition resolves :: "env \<Rightarrow> nat \<Rightarrow> world \<Rightarrow> string \<Rightarrow> By \<Rightarrow> string \<Rightarrow> elem \<Rightarrow> nat \<Rightarrow> bool" where
  "resolves env wait w by_type by sel el ms =
    (by_of by_type = Some by
     \<and> raises env (length (calls w)) (WaitClickable by sel) = None
     \<and> clickable env (length (calls w)) by sel = Some (el, ms) \<and> ms \<le> wait)"

definition after_wait :: "env \<Rightarrow> nat \<Rightarrow> By \<Rightarrow> string \<Rightarrow> world \<Rightarrow> world" where
  "after_wait env ms by sel w = sleep env ms (logged [WaitClickable by sel] w)"

definition after_retry :: "env \<Rightarrow> nat \<Rightarrow> By \<Rightarrow> string \<Rightarrow> elem \<Rightarrow> world \<Rightarrow> world" where
  "after_retry env ms by sel el w =
    sleep env 300 (logged [Click el, ExecuteScript SCROLL_JS (Some el)] (after_wait env ms by sel w))"

text \<open>
  The world after the candidates \<open>cs\<close> have been tried one after the other, and
  ``each of them returned \<open>False\<close> in its turn''.
\<close>

fun tried :: "env \<Rightarrow> nat \<Rightarrow> nat \<Rightarrow> (string \<times> string) list \<Rightarrow> world \<Rightarrow> world" where
  "tried env wait timeout [] w = w"
| "tried env wait timeout (c # cs) w =
    tried env wait timeout cs (snd (try_find_click env wait (snd c) (fst c) timeout w))"

fun all_false :: "env \<Rightarrow> nat \<Rightarrow> nat \<Rightarrow> (string \<times> string) list \<Rightarrow> world \<Rightarrow> bool" where
  "all_false env wait timeout [] w = True"
| "all_false env wait timeout (c # cs) w =
    (fst (try_find_click env wait (snd c) (fst c) timeout w) = Inr False
     \<and> all_false env wait timeout cs (snd (try_find_click env wait (snd c) (fst c) timeout w)))"

text \<open>
  The files \<open>cleanup_old_downloads\<close> meets, in the order it meets them: the matches of
  the three patterns in a listing \<open>d\<close> of the directory. \<open>removed env n fs f\<close>: one of the
  \<open>unlink\<close> calls made for the files \<open>fs\<close>, the first of them as call number \<open>n\<close>, is a
  call for \<open>f\<close> that the environment lets through.
\<close>

definition globbed :: "(string \<times> nat) list \<Rightarrow> string list" where
  "globbed d = filter (glob_match ''*.xls'') (names d) @ filter (glob_match ''*.xlsx'') (names d)
     @ filter (glob_match ''*.csv'') (names d)"

definition removed :: "env \<Rightarrow> nat \<Rightarrow> string list \<Rightarrow> string \<Rightarrow> bool" where
  "removed env n fs f = (\<exists>i < length fs. fs ! i = f \<and> raises env (n + i) (Unlink f) = None)"

section \<open>Scenarios\<close>

text \<open>An empty download directory at time 0, before any call.\<close>

definition w0 :: world where
  "w0 = \<lparr>clock = 0, calls = [], dir = [], out = []\<rparr>"

text \<open>
  The page load of the first attempt raises; from then on every element is clickable at
  once, and the browser has written the export a little after the second export click.
\<close>

definition env_second :: env where
  "env_second = \<lparr>raises = (\<lambda>n c. if n = 0 then Some WebDriverException else None),
     clickable = (\<lambda>n b s. Some (1, 0)), present = (\<lambda>n b s. []),
     fs_step = (\<lambda>t d. if 8700 < t then [(''reportTable.xlsx'', 100)] else d),
     first_in_set = hd\<rparr>"

text \<open>
  Every page load is interrupted from the keyboard, and \<open>driver.quit()\<close> fails.
\<close>

definition env_interrupt :: env where
  "env_interrupt = \<lparr>raises = (\<lambda>n c. case c of Get _ \<Rightarrow> Some KeyboardInterrupt
        | Quit \<Rightarrow> Some WebDriverException | _ \<Rightarrow> None),
     clickable = (\<lambda>n b s. None), present = (\<lambda>n b s. []),
     fs_step = (\<lambda>t d. d),
     first_in_set = hd\<rparr>"


definition env_drift :: env where
  "env_drift = \<lparr>raises = (\<lambda>n c. None),
     clickable = (\<lambda>n b s. if b = ID then None else Some (5, 100)),
     present = (\<lambda>n b s. []),
     fs_step = (\<lambda>t d. d),
     first_in_set = hd\<rparr>"

definition env_stuck :: env where
  "env_stuck = \<lparr>raises = (\<lambda>n c. case c of
          Click _ \<Rightarrow> Some ElementClickInterceptedException
        | ExecuteScript s _ \<Rightarrow> if s = CLICK_JS then Some WebDriverException else None
        | _ \<Rightarrow> None),
     clickable = (\<lambda>n b s. Some (7, 0)), present = (\<lambda>n b s. []),
     fs_step = (\<lambda>t d. d),
     first_in_set = hd\<rparr>"

definition env_overlay :: env where
  "env_overlay = \<lparr>raises = (\<lambda>n c. case c of
          Click _ \<Rightarrow> Some ElementClickInterceptedException
        | _ \<Rightarrow> None),
     clickable = (\<lambda>n b s. Some (7, 0)), present = (\<lambda>n b s. []),
     fs_step = (\<lambda>t d. d),
     first_in_set = hd\<rparr>"

text \<open>No candidate ever becomes clickable; nothing raises.\<close>

definition env_never :: env where
  "env_never = \<lparr>raises = (\<lambda>n c. None), clickable = (\<lambda>n b s. None),
     present = (\<lambda>n b s. []), fs_step = (\<lambda>t d. d),
     first_in_set = hd\<rparr>"

text \<open>
  The browser starts to write \<open>report.xls\<close> half a second after the export click and
  is still writing when the watcher gives up: the size of the file is the clock.
\<close>

definition env_growing :: env where
  "env_growing = \<lparr>raises = (\<lambda>n c. None), clickable = (\<lambda>n b s. None),
     present = (\<lambda>n b s. []), fs_step = (\<lambda>t d. [(''report.xls'', t)]),
     first_in_set = hd\<rparr>"

text \<open>
  \<open>old.xls\<close> is in the download directory before the export click. The export control
  becomes clickable after 0.1 s; at that moment the file is taken away, and it is back
  under the same name from then on.
\<close>

definition w_old :: world where
  "w_old = \<lparr>clock = 0, calls = [], dir = [(''old.xls'', 10)], out = []\<rparr>"

definition env_replaced :: env where
  "env_replaced = \<lparr>raises = (\<lambda>n c. None), clickable = (\<lambda>n b s. Some (1, 100)),
     present = (\<lambda>n b s. []),
     fs_step = (\<lambda>t d. if t = 100 then [] else [(''old.xls'', 10)]),
     first_in_set = hd\<rparr>"

text \<open>
  The download directory is read-only (every \<open>unlink\<close> raises) and the site is down
  (every page load raises).
\<close>

definition env_locked :: env where
  "env_locked = \<lparr>raises = (\<lambda>n c. case c of
          Unlink _ \<Rightarrow> Some OSError
        | Get _ \<Rightarrow> Some WebDriverException
        | _ \<Rightarrow> None),
     clickable = (\<lambda>n b s. None), present = (\<lambda>n b s. []),
     fs_step = (\<lambda>t d. d),
     first_in_set = hd\<rparr>"

text \<open>The directory holds one old export and one other file; every \<open>unlink\<close> works.\<close>

definition w_two :: world where
  "w_two = \<lparr>clock = 0, calls = [], dir = [(''old.xls'', 10), (''notes.txt'', 3)], out = []\<rparr>"

text \<open>
  The first candidate resolves to element 1, whose direct click is intercepted and whose
  scroll into view times out; the second resolves to element 2, which accepts the click.
\<close>

definition env_abandoned :: env where
  "env_abandoned = \<lparr>raises = (\<lambda>n c. case c of
          Click el \<Rightarrow> if el = 1 then Some ElementClickInterceptedException else None
        | ExecuteScript s a \<Rightarrow> Some TimeoutException
        | _ \<Rightarrow> None),
     clickable = (\<lambda>n b s. if b = ID then Some (1, 0) else Some (2, 0)),
     present = (\<lambda>n b s. []),
     fs_step = (\<lambda>t d. d),
     first_in_set = hd\<rparr>"

section \<open>What every statement leaves in the logs\<close>

lemma extends_refl [simp]: "extends ok okm w w"
  by (simp add: extends_def)

lemma extends_trans: "extends ok okm w w' \<Longrightarrow> extends ok okm w' w'' \<Longrightarrow> extends ok okm w w''"
  by (auto simp: extends_def)

lemma extends_weaken: "extends ok okm w w' \<Longrightarrow> (\<And>c. ok c \<Longrightarrow> ok' c) \<Longrightarrow> extends ok' okm w w'"
  by (auto simp: extends_def list_all_iff)

lemma confined_weaken: "confined ok okm m \<Longrightarrow> (\<And>c. ok c \<Longrightarrow> ok' c) \<Longrightarrow> confined ok' okm m"
  unfolding confined_def by (blast intro: extends_weaken)

lemma only_callsD: "confined ok okm m \<Longrightarrow> m w = (r, w') \<Longrightarrow> extends ok okm w w'"
  by (auto simp: confined_def dest: spec [of _ w])

lemma confined_return [simp]: "confined ok okm (return x)"
  by (simp add: confined_def return_def)

lemma extends_sleep [simp]: "extends ok okm w (sleep env ms w)"
  by (simp add: extends_def sleep_def)

lemma extends_say [simp]: "okm m \<Longrightarrow> extends ok okm w (say m w)"
  by (simp add: extends_def say_def)

lemma confined_sleep [simp]: "confined ok okm (effect (sleep env ms))"
  by (simp add: confined_def effect_def)

lemma confined_say [simp]: "okm m \<Longrightarrow> confined ok okm (effect (say m))"
  by (simp add: confined_def effect_def)

lemma confined_bnd: "confined ok okm m \<Longrightarrow> (\<And>x. confined ok okm (f x)) \<Longrightarrow> confined ok okm (bnd m f)"
  unfolding confined_def
proof
  fix w
  assume m: "\<forall>w. extends ok okm w (snd (m w))" and f: "\<And>x. \<forall>w. extends ok okm w (snd (f x w))"
  obtain r w' where mw: "m w = (r, w')" by (cases "m w")
  from m have e1: "extends ok okm w w'" using mw by (metis snd_conv)
  show "extends ok okm w (snd (bnd m f w))"
  proof (cases r)
    case (Inl e)
    then show ?thesis using mw e1 by (simp add: bnd_def)
  next
    case (Inr x)
    have "extends ok okm w' (snd (f x w'))" using f by blast
    then show ?thesis using Inr mw e1 by (auto simp: bnd_def intro: extends_trans)
  qed
qed

lemma confined_catch: "confined ok okm m \<Longrightarrow> (\<And>e. confined ok okm (h e)) \<Longrightarrow> confined ok okm (catch m p h)"
  unfolding confined_def
proof
  fix w
  assume m: "\<forall>w. extends ok okm w (snd (m w))" and h: "\<And>e. \<forall>w. extends ok okm w (snd (h e w))"
  obtain r w' where mw: "m w = (r, w')" by (cases "m w")
  from m have e1: "extends ok okm w w'" using mw by (metis snd_conv)
  show "extends ok okm w (snd (catch m p h w))"
  proof (cases r)
    case (Inl e)
    have "extends ok okm w' (snd (h e w'))" using h by blast
    then show ?thesis using Inl mw e1 by (auto simp: catch_def intro: extends_trans)
  next
    case (Inr x)
    then show ?thesis using mw e1 by (simp add: catch_def)
  qed
qed

lemma confined_invoke: "ok c \<Longrightarrow> confined ok okm (invoke env c)"
  by (auto simp: confined_def invoke_def calling_def extends_def split: option.splits)

lemma confined_until: "ok (WaitClickable by sel) \<Longrightarrow> confined ok okm (until_clickable env wait by sel)"
  by (auto simp: confined_def until_clickable_def calling_def extends_def sleep_def split: option.splits)

lemma confined_find_element: "ok (FindElement by sel) \<Longrightarrow> confined ok okm (find_element env by sel)"
  by (auto simp: confined_def find_element_def calling_def extends_def split: option.splits list.splits)

lemma confined_find_elements: "ok (FindElements by sel) \<Longrightarrow> confined ok okm (find_elements env by sel)"
  by (auto simp: confined_def find_elements_def calling_def extends_def split: option.splits list.splits)

lemma confined_unlink: "ok (Unlink f) \<Longrightarrow> confined ok okm (unlink env f)"
  by (auto simp: confined_def unlink_def calling_def extends_def split: option.splits list.splits)

lemma confined_if: "confined ok okm a \<Longrightarrow> confined ok okm b \<Longrightarrow> confined ok okm (if c then a else b)"
  by simp

lemma step_WaitClickable: "step_call (WaitClickable by sel)" by simp

lemma confined_snapshot: "confined step_call step_msg (save_debug_snapshot env name_prefix)"
  unfolding confined_def
proof
  fix w :: world
  have "confined step_call step_msg (catch
       (bnd (invoke env (SaveScreenshot name_prefix (clock w))) (\<lambda>_.
        bnd (invoke env (OpenFile name_prefix (clock w))) (\<lambda>_.
        bnd (invoke env PageSource) (\<lambda>_.
        bnd (invoke env (WriteFile name_prefix (clock w))) (\<lambda>_.
        effect (say (DebugSaved name_prefix (clock w))))))))
       is_Exception
       (\<lambda>e. effect (say (DebugFailed e))))"
    by (intro confined_catch confined_bnd confined_invoke confined_say) simp_all
  then show "extends step_call step_msg w (snd (save_debug_snapshot env name_prefix w))"
    by (simp add: confined_def save_debug_snapshot_def Let_def)
qed

lemma confined_click_with_fallback: "confined step_call step_msg (click_with_fallback env el)"
  unfolding click_with_fallback_def
  by (intro confined_catch confined_bnd confined_invoke confined_sleep) simp_all

lemma confined_try_find_click: "confined step_call step_msg (try_find_click env wait sel by_type timeout)"
  unfolding try_find_click_def
  by (cases "by_of by_type")
     (auto intro!: confined_catch confined_bnd confined_until confined_click_with_fallback)

lemma confined_click_first_pattern: "confined step_call step_msg (click_first_pattern env wait ps)"
  by (induction ps)
     (auto intro!: confined_catch confined_bnd confined_until confined_invoke)

lemma confined_find_list_item: "confined step_call step_msg (find_list_item_and_click env wait t)"
  by (simp add: find_list_item_and_click_def confined_click_first_pattern)

lemma confined_click_first_candidate: "confined step_call step_msg (click_first_candidate env wait timeout cs)"
  by (induction cs) (auto intro!: confined_bnd confined_try_find_click)

lemma size_loop_frame:
  "calls (snd (size_loop env start timeout f prev_size stable_count w)) = calls w \<and>
   out (snd (size_loop env start timeout f prev_size stable_count w)) = out w"
proof (induction env start timeout f prev_size stable_count w rule: size_loop.induct)
  case (1 env start timeout f prev_size stable_count w)
  show ?case
  proof (cases "stable_count < 3 \<and> int (clock w) - int start < int timeout")
    case False
    then show ?thesis by (subst (1 2) size_loop.simps) auto
  next
    case True
    show ?thesis
    proof (cases "map_of (dir w) f")
      case None
      then show ?thesis using True by (subst (1 2) size_loop.simps) auto
    next
      case (Some sz)
      from "1.IH" [OF True Some] show ?thesis
        using True Some by (subst (1 2) size_loop.simps) (simp add: sleep_def)
    qed
  qed
qed

lemma confined_size_loop: "confined ok okm (size_loop env start timeout f prev_size stable_count)"
  by (simp add: confined_def extends_def size_loop_frame)

lemma poll_loop_frame:
  "calls (snd (poll_loop env start timeout bn w)) = calls w \<and>
   out (snd (poll_loop env start timeout bn w)) = out w"
proof (induction env start timeout bn w rule: poll_loop.induct)
  case (1 env start timeout bn w)
  show ?case
  proof (cases "int (clock w) - int start < int timeout")
    case False
    then show ?thesis by (subst (1 2) poll_loop.simps) auto
  next
    case True
    show ?thesis
    proof (cases "first_accepted env (filter (\<lambda>f. f \<notin> set bn) (names (dir w)))")
      case None
      from "1.IH" [OF True refl refl None] show ?thesis
        using True None by (subst (1 2) poll_loop.simps) (simp add: sleep_def)
    next
      case (Some f)
      obtain r w' where sl: "size_loop env start timeout f (- 1) 0 w = (r, w')"
        by (cases "size_loop env start timeout f (- 1) 0 w")
      from size_loop_frame [of env start timeout f "- 1" 0 w]
      have "calls w' = calls w \<and> out w' = out w" by (simp add: sl)
      then show ?thesis using True Some sl
        by (subst (1 2) poll_loop.simps) (cases r; simp add: bnd_def return_def)
    qed
  qed
qed

lemma confined_wait_for_download: "confined ok okm (wait_for_download_completion env timeout)"
  by (simp add: confined_def extends_def wait_for_download_completion_def poll_loop_frame)

lemma confined_open_yaxis: "confined step_call step_msg (open_yaxis env wait)"
  unfolding open_yaxis_def
  by (auto intro!: confined_bnd confined_catch confined_click_first_candidate
        confined_find_element confined_invoke)

lemma confined_fuzzy_loop: "confined step_call step_msg (fuzzy_loop env wait option_label cs)"
  by (induction cs) (auto intro!: confined_bnd confined_find_list_item)

lemma confined_choose_option: "confined step_call step_msg (choose_option env wait option_label)"
  unfolding choose_option_def
  by (auto intro!: confined_bnd confined_find_list_item confined_fuzzy_loop)

lemma confined_click_refresh: "confined step_call step_msg (click_refresh env wait)"
  unfolding click_refresh_def
  by (auto intro!: confined_bnd confined_catch confined_click_first_candidate confined_invoke)

lemma confined_click_first_link: "confined step_call step_msg (click_first_link env ls)"
  by (induction ls) (auto intro!: confined_bnd confined_catch confined_invoke)

lemma confined_click_export: "confined step_call step_msg (click_export env wait)"
proof -
  have "confined step_call step_msg
     (bnd (click_first_candidate env wait 8000 DOWNLOAD_CANDIDATES) (\<lambda>dl_candidate_clicked.
          if dl_candidate_clicked then return True
          else
            catch
              (bnd (find_elements env XPATH LINKS_XPATH) (\<lambda>links. click_first_link env links))
              is_Exception
              (\<lambda>_. return False)))"
    by (auto intro!: confined_bnd confined_catch confined_click_first_candidate
          confined_find_elements confined_click_first_link)
  then show ?thesis by (simp add: confined_def click_export_def)
qed

lemma confined_export_and_wait: "confined step_call step_msg (export_and_wait env wait option_label)"
  unfolding export_and_wait_def
  by (auto intro!: confined_bnd confined_click_export confined_snapshot
        confined_wait_for_download split: option.splits)

lemma starts_with_invoke_bnd:
  assumes "\<And>x. confined ok okm (f x)"
  shows "starts_with c ok okm (bnd (invoke env c) f)"
  unfolding starts_with_def
proof
  fix w :: world
  let ?w1 = "w\<lparr>calls := calls w @ [c]\<rparr>"
  show "(\<exists>cs. calls (snd (bnd (invoke env c) f w)) = calls w @ c # cs \<and> list_all ok cs) \<and>
         (\<exists>ms. out (snd (bnd (invoke env c) f w)) = out w @ ms \<and> list_all okm ms)"
  proof (cases "raises env (length (calls w)) c")
    case (Some e)
    then show ?thesis by (simp add: bnd_def invoke_def calling_def)
  next
    case None
    then have eq: "bnd (invoke env c) f w = f () ?w1"
      by (simp add: bnd_def invoke_def calling_def)
    from assms have "extends ok okm ?w1 (snd (f () ?w1))" by (simp add: confined_def)
    then show ?thesis unfolding eq by (auto simp: extends_def)
  qed
qed

lemma starts_with_catch:
  assumes "starts_with c ok okm m" and "\<And>e. confined ok okm (h e)"
  shows "starts_with c ok okm (catch m p h)"
  unfolding starts_with_def
proof
  fix w :: world
  obtain r w' where mw: "m w = (r, w')" by (cases "m w")
  from assms(1) have a: "(\<exists>cs. calls w' = calls w @ c # cs \<and> list_all ok cs) \<and> (\<exists>ms. out w' = out w @ ms \<and> list_all okm ms)"
    using mw by (auto simp: starts_with_def dest!: spec [of _ w])
  show "(\<exists>cs. calls (snd (catch m p h w)) = calls w @ c # cs \<and> list_all ok cs) \<and>
         (\<exists>ms. out (snd (catch m p h w)) = out w @ ms \<and> list_all okm ms)"
  proof (cases r)
    case (Inr x)
    then show ?thesis using mw a by (simp add: catch_def)
  next
    case (Inl e)
    show ?thesis
    proof (cases "p e")
      case False
      then show ?thesis using Inl mw a by (simp add: catch_def)
    next
      case True
      then have eq: "catch m p h w = h e w'" using Inl mw by (simp add: catch_def)
      from assms(2) have "extends ok okm w' (snd (h e w'))" by (simp add: confined_def)
      then show ?thesis unfolding eq using a by (auto simp: extends_def)
    qed
  qed
qed

lemma starts_with_bnd:
  assumes "starts_with c ok okm m" and "\<And>x. confined ok okm (f x)"
  shows "starts_with c ok okm (bnd m f)"
  unfolding starts_with_def
proof
  fix w :: world
  obtain r w' where mw: "m w = (r, w')" by (cases "m w")
  from assms(1) have a: "(\<exists>cs. calls w' = calls w @ c # cs \<and> list_all ok cs) \<and> (\<exists>ms. out w' = out w @ ms \<and> list_all okm ms)"
    using mw by (auto simp: starts_with_def dest!: spec [of _ w])
  show "(\<exists>cs. calls (snd (bnd m f w)) = calls w @ c # cs \<and> list_all ok cs) \<and>
         (\<exists>ms. out (snd (bnd m f w)) = out w @ ms \<and> list_all okm ms)"
  proof (cases r)
    case (Inl e)
    then show ?thesis using mw a by (simp add: bnd_def)
  next
    case (Inr x)
    then have eq: "bnd m f w = f x w'" using mw by (simp add: bnd_def)
    from assms(2) have "extends ok okm w' (snd (f x w'))" by (simp add: confined_def)
    then show ?thesis unfolding eq using a by (auto simp: extends_def)
  qed
qed

lemma confined_effect_if [simp]:
  "okm m \<Longrightarrow> confined ok okm (effect (\<lambda>w. if v then say m w else w))"
  by (simp add: confined_def effect_def)

lemma cycle_starts_with_get:
  "starts_with (Get URL) step_call step_msg (perform_download_cycle env wait option_label verbose)"
  unfolding perform_download_cycle_def
  by (rule starts_with_invoke_bnd)
     (auto intro!: confined_bnd confined_open_yaxis confined_snapshot
        confined_choose_option confined_click_refresh confined_export_and_wait)

lemma attempt_starts_with_get:
  "starts_with (Get URL) step_call step_msg (attempt_once env wait opt attempt)"
  unfolding attempt_once_def
  by (intro starts_with_catch starts_with_bnd cycle_starts_with_get)
     (auto intro!: confined_bnd confined_snapshot split: option.splits)



lemmas prog_simps = return_def effect_def bnd_def catch_def try_finally_def is_timeout_def
  sleep_def say_def calling_def invoke_def until_clickable_def find_elements_def find_element_def
  unlink_def

lemmas cycle_simps = save_debug_snapshot_def by_of_def click_with_fallback_def try_find_click_def
  find_list_item_and_click_def patterns_def open_yaxis_def choose_option_def click_refresh_def
  click_export_def export_and_wait_def perform_download_cycle_def attempt_once_def
  wait_for_download_completion_def size_loop.simps poll_loop.simps names_def accepted_def
  first_accepted_def
  suffix_of_def lower_def lower_char_def
  YAXIS_LABEL_CANDIDATES_def REFRESH_CANDIDATES_def DOWNLOAD_CANDIDATES_def





lemma starts_with_confined:
  "starts_with c ok okm m \<Longrightarrow> ok c \<Longrightarrow> confined ok okm m"
  unfolding starts_with_def confined_def extends_def
proof
  fix w :: world
  assume a: "\<forall>w. (\<exists>cs. calls (snd (m w)) = calls w @ c # cs \<and> list_all ok cs) \<and>
         (\<exists>ms. out (snd (m w)) = out w @ ms \<and> list_all okm ms)" and c: "ok c"
  from a obtain cs where "calls (snd (m w)) = calls w @ c # cs" "list_all ok cs" by blast
  then have "calls (snd (m w)) = calls w @ (c # cs) \<and> list_all ok (c # cs)" using c by simp
  then have "\<exists>cs. calls (snd (m w)) = calls w @ cs \<and> list_all ok cs" by blast
  then show "(\<exists>cs. calls (snd (m w)) = calls w @ cs \<and> list_all ok cs) \<and>
         (\<exists>ms. out (snd (m w)) = out w @ ms \<and> list_all okm ms)" using a by blast
qed

lemma step_call_not_quit: "step_call c \<Longrightarrow> not_quit c"
  by (cases c) (simp_all add: not_quit_def)

lemma confined_weaken2:
  "confined ok okm m \<Longrightarrow> (\<And>c. ok c \<Longrightarrow> ok' c) \<Longrightarrow> (\<And>c. okm c \<Longrightarrow> okm' c) \<Longrightarrow> confined ok' okm' m"
  unfolding confined_def extends_def by (auto simp: list_all_iff) blast+

lemma starts_with_weaken:
  "starts_with c ok okm m \<Longrightarrow> (\<And>c. ok c \<Longrightarrow> ok' c) \<Longrightarrow> starts_with c ok' okm m"
  unfolding starts_with_def by (auto simp: list_all_iff) blast+

lemma confined_attempt_once: "confined not_quit any_msg (attempt_once env wait opt attempt)"
proof -
  have "starts_with (Get URL) not_quit step_msg (attempt_once env wait opt attempt)"
    by (rule starts_with_weaken [OF attempt_starts_with_get]) (rule step_call_not_quit)
  then have "confined not_quit step_msg (attempt_once env wait opt attempt)"
    by (rule starts_with_confined) (simp add: not_quit_def)
  then show ?thesis by (rule confined_weaken2) (simp_all add: any_msg_def)
qed

lemma any_msg [simp]: "any_msg m"
  by (simp add: any_msg_def)

lemma confined_case_option:
  "confined ok okm a \<Longrightarrow> (\<And>x. confined ok okm (b x)) \<Longrightarrow>
   confined ok okm (case r of None \<Rightarrow> a | Some x \<Rightarrow> b x)"
  by (cases r) auto

lemma confined_attempts_loop: "confined not_quit any_msg (attempts_loop env wait opt as dl)"
proof (induction as)
  case Nil
  show ?case by (simp only: attempts_loop.simps) (intro confined_bnd confined_say confined_return any_msg)
next
  case (Cons a as)
  show ?case
    by (simp only: attempts_loop.simps)
       (intro confined_bnd confined_attempt_once confined_case_option confined_return Cons.IH)
qed

lemma confined_options_loop: "confined not_quit any_msg (options_loop env wait opts dl)"
proof (induction opts arbitrary: dl)
  case Nil
  show ?case by (simp only: options_loop.simps) (rule confined_return)
next
  case (Cons opt opts)
  show ?case
    by (simp only: options_loop.simps)
       (intro confined_bnd confined_say confined_attempts_loop Cons.IH any_msg)
qed

lemma confined_unlink_each: "(\<And>f. ok (Unlink f)) \<Longrightarrow> confined ok okm (unlink_each env fs)"
  by (induction fs) (auto intro!: confined_bnd confined_catch confined_unlink)

lemma confined_cleanup_loop: "(\<And>f. ok (Unlink f)) \<Longrightarrow> confined ok okm (cleanup_loop env exts)"
proof (induction exts)
  case Nil
  show ?case by simp
next
  case (Cons ext exts)
  have "confined ok okm (\<lambda>w. unlink_each env (filter (glob_match ext) (names (dir w))) w)"
    using confined_unlink_each [of ok okm env] Cons.prems by (simp add: confined_def)
  then show ?case using Cons by (auto intro!: confined_bnd)
qed

lemma confined_cleanup: "(\<And>f. ok (Unlink f)) \<Longrightarrow> confined ok okm (cleanup_old_downloads env)"
  unfolding cleanup_old_downloads_def by (rule confined_cleanup_loop)

lemma confined_summary: "confined ok any_msg (effect (summary dl))"
  by (simp add: confined_def effect_def summary_def extends_def any_msg_def list_all_iff)

lemma confined_run_targets: "confined not_quit any_msg (run_targets env wait opts)"
  unfolding run_targets_def
  by (intro confined_bnd confined_cleanup confined_options_loop confined_summary confined_return)
     (simp add: not_quit_def)

lemma quit_driver_frame:
  "calls (snd (quit_driver env w)) = calls w @ [Quit] \<and> out (snd (quit_driver env w)) = out w
   \<and> dir (snd (quit_driver env w)) = dir w"
  by (simp add: quit_driver_def catch_def invoke_def calling_def return_def split: option.splits)

lemma quit_driver_result:
  "fst (quit_driver env w) =
    (case raises env (length (calls w)) Quit of
       Some e \<Rightarrow> if is_Exception e then Inr () else Inl e
     | None \<Rightarrow> Inr ())"
  by (simp add: quit_driver_def catch_def invoke_def calling_def return_def split: option.splits)

lemma main_with_world:
  "snd (main_with env opts w) = snd (quit_driver env (snd (run_targets env 20000 opts w)))"
  by (simp add: main_with_def try_finally_def split: prod.splits sum.splits)



lemma cleanup_frame:
  "out (snd (cleanup_old_downloads env w)) = out w
   \<and> cycles_started (snd (cleanup_old_downloads env w)) = cycles_started w"
proof -
  have "confined is_unlink no_msg (cleanup_old_downloads env)"
    by (rule confined_cleanup) (simp add: is_unlink_def)
  then obtain cs ms where a: "calls (snd (cleanup_old_downloads env w)) = calls w @ cs"
      "list_all is_unlink cs"
      "out (snd (cleanup_old_downloads env w)) = out w @ ms" "list_all no_msg ms"
    unfolding confined_def extends_def by blast
  have "ms = []" using a(4) by (cases ms) (simp_all add: no_msg_def)
  moreover have "filter (\<lambda>c. c = Get URL) cs = []"
    using a(2) by (induction cs) (auto simp: is_unlink_def)
  ultimately show ?thesis using a by (simp add: cycles_started_def)
qed

lemma say_frame [simp]:
  "calls (say m w) = calls w" "out (say m w) = out w @ [m]" "clock (say m w) = clock w"
  "dir (say m w) = dir w"
  by (simp_all add: say_def)

lemma cycles_started_say [simp]: "cycles_started (say m w) = cycles_started w"
  by (simp add: cycles_started_def)


lemma try_find_click_unresolved:
  assumes "unresolved env wait (by_type, sel)"
  shows "fst (try_find_click env wait sel by_type timeout w) = Inr False
    \<and> calls (snd (try_find_click env wait sel by_type timeout w))
        = calls w @ [wait_call (by_type, sel)]"
proof -
  from assms obtain loc where b: "by_of by_type = Some loc"
    and r: "\<And>n. raises env n (WaitClickable loc sel) = None
             \<or> raises env n (WaitClickable loc sel) = Some TimeoutException"
    and c: "\<And>n. case clickable env n loc sel of None \<Rightarrow> True | Some (el, ms) \<Rightarrow> wait < ms"
    by (auto simp: unresolved_def)
  have u: "fst (until_clickable env wait loc sel w) = Inl TimeoutException
      \<and> calls (snd (until_clickable env wait loc sel w)) = calls w @ [WaitClickable loc sel]"
    using r [of "length (calls w)"] c [of "length (calls w)"]
    by (auto simp: until_clickable_def calling_def sleep_def split: option.splits)
  obtain r' w' where e: "until_clickable env wait loc sel w = (r', w')"
    by (cases "until_clickable env wait loc sel w")
  show ?thesis using u e b
    by (simp add: try_find_click_def catch_def bnd_def return_def is_timeout_def wait_call_def)
qed

lemma try_find_click_logs_wait:
  assumes "by_of by_type = Some by"
  shows "\<exists>cs. calls (snd (try_find_click env wait sel by_type timeout w))
      = calls w @ WaitClickable by sel # cs"
proof -
  have c: "confined step_call step_msg (click_with_fallback env el)" for el
    by (rule confined_click_with_fallback)
  obtain r w1 where u: "until_clickable env wait by sel w = (r, w1)"
    by (cases "until_clickable env wait by sel w")
  have w1: "calls w1 = calls w @ [WaitClickable by sel]"
    using u by (auto simp: until_clickable_def calling_def sleep_def split: option.splits if_splits)
  show ?thesis
  proof (cases r)
    case (Inl e)
    then show ?thesis using u w1 assms
      by (auto simp: try_find_click_def catch_def bnd_def return_def)
  next
    case (Inr el)
    obtain r2 w2 where k: "click_with_fallback env el w1 = (r2, w2)"
      by (cases "click_with_fallback env el w1")
    from c [of el] have "extends step_call step_msg w1 w2"
      using k by (auto simp: confined_def dest!: spec [of _ w1])
    then obtain cs where "calls w2 = calls w1 @ cs" by (auto simp: extends_def)
    then show ?thesis using Inr u w1 k assms
      by (cases r2) (auto simp: try_find_click_def catch_def bnd_def return_def)
  qed
qed

lemma click_first_candidate_exhausts:
  "fst (click_first_candidate env wait timeout cs w) = Inr False \<Longrightarrow>
   c \<in> set cs \<Longrightarrow> by_of (fst c) = Some by \<Longrightarrow>
   WaitClickable by (snd c) \<in> set (drop (length (calls w))
      (calls (snd (click_first_candidate env wait timeout cs w))))"
proof (induction cs arbitrary: w)
  case Nil
  then show ?case by simp
next
  case (Cons d cs)
  obtain bt s where d: "d = (bt, s)" by (cases d)
  obtain r w1 where e: "try_find_click env wait s bt timeout w = (r, w1)"
    by (cases "try_find_click env wait s bt timeout w")
  from Cons.prems(1) have r: "r = Inr False"
    using e by (cases r) (auto simp: d bnd_def return_def split: if_splits)
  then have rest: "click_first_candidate env wait timeout (d # cs) w
      = click_first_candidate env wait timeout cs w1"
    using e by (simp add: d bnd_def)
  have "extends step_call step_msg w w1"
    using confined_try_find_click [of env wait s bt timeout] e
    by (auto simp: confined_def dest!: spec [of _ w])
  then obtain xs where xs: "calls w1 = calls w @ xs" by (auto simp: extends_def)
  have "extends step_call step_msg w1 (snd (click_first_candidate env wait timeout cs w1))"
    using confined_click_first_candidate [of env wait timeout cs] by (simp add: confined_def)
  then obtain ys where ys: "calls (snd (click_first_candidate env wait timeout cs w1)) = calls w1 @ ys"
    by (auto simp: extends_def)
  show ?case
  proof (cases "c = d")
    case True
    with Cons.prems(3) have "by_of bt = Some by" "snd c = s" by (simp_all add: d)
    from try_find_click_logs_wait [OF this(1), of env wait s timeout w]
    obtain zs where "calls w1 = calls w @ WaitClickable by s # zs" using e by auto
    then show ?thesis using rest ys \<open>snd c = s\<close> by simp
  next
    case False
    with Cons.prems(2) have "c \<in> set cs" by simp
    from Cons.IH [OF _ this Cons.prems(3), of w1] Cons.prems(1) rest
    have "WaitClickable by (snd c) \<in> set (drop (length (calls w1))
        (calls (snd (click_first_candidate env wait timeout cs w1))))" by simp
    then have "WaitClickable by (snd c) \<in> set ys" using ys by simp
    then show ?thesis using rest ys xs by simp
  qed
qed

lemma click_with_fallback_calls:
  "\<exists>k. calls (snd (click_with_fallback env el w)) = calls w @ take (Suc k) (tl (tiers by sel el))"
proof -
  let ?n = "length (calls w)"
  let ?r1 = "raises env ?n (Click el)"
  let ?r2 = "raises env (Suc ?n) (ExecuteScript SCROLL_JS (Some el))"
  let ?r3 = "raises env (Suc (Suc ?n)) (Click el)"
  have one: "?r1 = None \<or> (\<exists>e. ?r1 = Some e \<and> \<not> is_Exception e) \<Longrightarrow>
      calls (snd (click_with_fallback env el w)) = calls w @ take (Suc 0) (tl (tiers by sel el))"
    by (auto simp: click_with_fallback_def catch_def invoke_def calling_def tiers_def)
  have two: "\<exists>e. ?r1 = Some e \<and> is_Exception e \<Longrightarrow> ?r2 \<noteq> None \<Longrightarrow>
      calls (snd (click_with_fallback env el w)) = calls w @ take (Suc 1) (tl (tiers by sel el))"
    by (auto simp: click_with_fallback_def catch_def bnd_def invoke_def calling_def tiers_def)
  have three: "\<exists>e. ?r1 = Some e \<and> is_Exception e \<Longrightarrow> ?r2 = None \<Longrightarrow>
      ?r3 = None \<or> (\<exists>e. ?r3 = Some e \<and> \<not> is_Exception e) \<Longrightarrow>
      calls (snd (click_with_fallback env el w)) = calls w @ take (Suc 2) (tl (tiers by sel el))"
    by (auto simp: click_with_fallback_def catch_def bnd_def invoke_def calling_def tiers_def
          effect_def sleep_def)
  have four: "\<exists>e. ?r1 = Some e \<and> is_Exception e \<Longrightarrow> ?r2 = None \<Longrightarrow>
      \<exists>e. ?r3 = Some e \<and> is_Exception e \<Longrightarrow>
      calls (snd (click_with_fallback env el w)) = calls w @ take (Suc 3) (tl (tiers by sel el))"
    by (auto simp: click_with_fallback_def catch_def bnd_def invoke_def calling_def tiers_def
          effect_def sleep_def split: option.splits)
  show ?thesis
    using one two three four by (metis not_None_eq)
qed

lemma try_find_click_calls:
  assumes "by_of by_type = Some by"
  shows "\<exists>el k. calls (snd (try_find_click env wait sel by_type timeout w))
      = calls w @ take (Suc k) (tiers by sel el)"
proof -
  obtain r w1 where u: "until_clickable env wait by sel w = (r, w1)"
    by (cases "until_clickable env wait by sel w")
  have w1: "calls w1 = calls w @ [WaitClickable by sel]"
    using u by (auto simp: until_clickable_def calling_def sleep_def split: option.splits if_splits)
  show ?thesis
  proof (cases r)
    case (Inl e)
    then have "calls (snd (try_find_click env wait sel by_type timeout w))
        = calls w @ take (Suc 0) (tiers by sel 0)"
      using u w1 assms by (auto simp: try_find_click_def catch_def bnd_def return_def tiers_def)
    then show ?thesis by blast
  next
    case (Inr el)
    obtain r2 w2 where k: "click_with_fallback env el w1 = (r2, w2)"
      by (cases "click_with_fallback env el w1")
    from click_with_fallback_calls [of env el w1 "by" sel]
    obtain k where "calls w2 = calls w1 @ take (Suc k) (tl (tiers by sel el))"
      using k by auto
    then have "calls w2 = calls w @ take (Suc (Suc k)) (tiers by sel el)"
      using w1 by (simp add: tiers_def)
    moreover have "snd (try_find_click env wait sel by_type timeout w) = w2"
      using Inr u k assms
      by (cases r2) (auto simp: try_find_click_def catch_def bnd_def return_def)
    ultimately show ?thesis by metis
  qed
qed

lemma try_find_click_never_timeout:
  "fst (try_find_click env wait sel by_type timeout w) \<noteq> Inl TimeoutException"
  by (auto simp: try_find_click_def catch_def return_def is_timeout_def
        split: prod.splits sum.splits if_splits)

lemma snapshot_no_Exception:
  "fst (save_debug_snapshot env name_prefix w) = Inl e \<Longrightarrow> \<not> is_Exception e"
  by (auto simp: save_debug_snapshot_def Let_def catch_def effect_def
        split: prod.splits sum.splits if_splits)

lemma snapshot_first_call:
  "\<exists>cs. calls (snd (save_debug_snapshot env name_prefix w))
     = calls w @ SaveScreenshot name_prefix (clock w) # cs"
proof -
  have "starts_with (SaveScreenshot name_prefix (clock w)) step_call step_msg (catch
       (bnd (invoke env (SaveScreenshot name_prefix (clock w))) (\<lambda>_.
        bnd (invoke env (OpenFile name_prefix (clock w))) (\<lambda>_.
        bnd (invoke env PageSource) (\<lambda>_.
        bnd (invoke env (WriteFile name_prefix (clock w))) (\<lambda>_.
        effect (say (DebugSaved name_prefix (clock w))))))))
       is_Exception
       (\<lambda>e. effect (say (DebugFailed e))))"
    by (intro starts_with_catch starts_with_invoke_bnd confined_bnd confined_invoke confined_say)
       simp_all
  then show ?thesis
    unfolding starts_with_def save_debug_snapshot_def Let_def by blast
qed

lemma attempt_once_no_Exception:
  "fst (attempt_once env wait opt a w) = Inl e \<Longrightarrow> \<not> is_Exception e"
proof -
  assume r: "fst (attempt_once env wait opt a w) = Inl e"
  let ?m = "bnd (perform_download_cycle env wait opt True) (\<lambda>result.
         case result of
           Some f \<Rightarrow> return (Some f)
         | None \<Rightarrow>
             bnd (effect (say (InfoAttemptFailed a opt))) (\<lambda>_.
             bnd (effect (sleep env 2000)) (\<lambda>_.
             return None)))"
  obtain r1 w1 where m: "?m w = (r1, w1)" by (cases "?m w")
  show ?thesis
  proof (cases r1)
    case (Inr x)
    then show ?thesis using r m by (simp add: attempt_once_def catch_def)
  next
    case (Inl e1)
    show ?thesis
    proof (cases "is_Exception e1")
      case False
      then show ?thesis using r m Inl by (simp add: attempt_once_def catch_def)
    next
      case True
      let ?w2 = "say (ErrorUnexpected a opt e1) w1"
      obtain r3 w3 where s: "save_debug_snapshot env (''exception_'' @ opt) ?w2 = (r3, w3)"
        by (cases "save_debug_snapshot env (''exception_'' @ opt) ?w2")
      have "fst (attempt_once env wait opt a w) =
          (case r3 of Inl e' \<Rightarrow> Inl e' | Inr _ \<Rightarrow> Inr None)"
        using m Inl True s
        by (simp add: attempt_once_def catch_def bnd_def effect_def return_def split: sum.splits)
      then have "r3 = Inl e" using r by (cases r3) simp_all
      then show ?thesis using snapshot_no_Exception [of env "''exception_'' @ opt" ?w2 e] s
        by simp
    qed
  qed
qed

lemma attempt_once_handles:
  assumes c: "perform_download_cycle env wait opt True w = (Inl e, w1)" and e: "is_Exception e"
  shows "attempt_once env wait opt a w =
      bnd (save_debug_snapshot env (''exception_'' @ opt)) (\<lambda>_.
      bnd (effect (sleep env 2000)) (\<lambda>_. return None)) (say (ErrorUnexpected a opt e) w1)"
  using c e by (simp add: attempt_once_def catch_def bnd_def effect_def)

lemma attempts_loop_no_Exception:
  "fst (attempts_loop env wait opt as dl w) = Inl e \<Longrightarrow> \<not> is_Exception e"
proof (induction as arbitrary: w)
  case Nil
  then show ?case by (simp add: bnd_def effect_def return_def)
next
  case (Cons a as)
  obtain r w1 where a: "attempt_once env wait opt a w = (r, w1)"
    by (cases "attempt_once env wait opt a w")
  show ?case
  proof (cases r)
    case (Inl e')
    then have "e' = e" using Cons.prems a by (simp add: bnd_def)
    then show ?thesis using attempt_once_no_Exception [of env wait opt a w e] a Inl by simp
  next
    case (Inr x)
    show ?thesis
    proof (cases x)
      case None
      then show ?thesis using Cons.IH [of w1] Cons.prems a Inr by (simp add: bnd_def)
    next
      case (Some f)
      then show ?thesis using Cons.prems a Inr by (simp add: bnd_def return_def)
    qed
  qed
qed

lemma options_loop_no_Exception:
  "fst (options_loop env wait opts dl w) = Inl e \<Longrightarrow> \<not> is_Exception e"
proof (induction opts arbitrary: w dl)
  case Nil
  then show ?case by (simp add: return_def)
next
  case (Cons opt opts)
  let ?w0 = "say (StartingCycle opt) w"
  obtain r w1 where a: "attempts_loop env wait opt [1, 2, 3] dl ?w0 = (r, w1)"
    by (cases "attempts_loop env wait opt [1, 2, 3] dl ?w0")
  have o: "options_loop env wait (opt # opts) dl w =
      (case r of Inl e \<Rightarrow> (Inl e, w1) | Inr dl' \<Rightarrow> options_loop env wait opts dl' w1)"
    by (simp only: options_loop.simps bnd_def effect_def a prod.case sum.case)
  show ?case
  proof (cases r)
    case (Inl e')
    then have "e' = e" using Cons.prems o by simp
    then show ?thesis using attempts_loop_no_Exception [of env wait opt "[1, 2, 3]" dl ?w0 e] a Inl
      by simp
  next
    case (Inr dl')
    then show ?thesis using Cons.IH [of dl' w1] Cons.prems o by simp
  qed
qed

lemma attempt_once_diagnostic:
  assumes c: "perform_download_cycle env wait opt True w = (Inl e, w1)" and e: "is_Exception e"
  shows "(\<exists>cs. calls (snd (attempt_once env wait opt a w))
            = calls w1 @ SaveScreenshot (''exception_'' @ opt) (clock w1) # cs)
    \<and> (\<exists>ms. out (snd (attempt_once env wait opt a w)) = out w1 @ ErrorUnexpected a opt e # ms)
    \<and> (fst (attempt_once env wait opt a w) = Inr None
        \<or> (\<exists>e'. fst (attempt_once env wait opt a w) = Inl e' \<and> \<not> is_Exception e'))"
proof -
  let ?w2 = "say (ErrorUnexpected a opt e) w1"
  let ?p = "''exception_'' @ opt"
  obtain r3 w3 where s: "save_debug_snapshot env ?p ?w2 = (r3, w3)"
    by (cases "save_debug_snapshot env ?p ?w2")
  from snapshot_first_call [of env ?p ?w2]
  obtain cs where cs: "calls w3 = calls w1 @ SaveScreenshot ?p (clock w1) # cs"
    using s by auto
  have "extends step_call step_msg ?w2 w3"
    using confined_snapshot [of env ?p] s by (auto simp: confined_def dest!: spec [of _ ?w2])
  then obtain ms where ms: "out w3 = out w1 @ ErrorUnexpected a opt e # ms"
    by (auto simp: extends_def)
  have a: "attempt_once env wait opt a w =
      (case r3 of Inl e' \<Rightarrow> (Inl e', w3) | Inr _ \<Rightarrow> (Inr None, sleep env 2000 w3))"
    unfolding attempt_once_handles [OF c e]
    by (cases r3) (simp_all only: bnd_def s effect_def return_def prod.case sum.case)
  show ?thesis
  proof (cases r3)
    case (Inl e')
    then have "\<not> is_Exception e'"
      using snapshot_no_Exception [of env ?p ?w2 e'] s by simp
    then show ?thesis using a Inl cs ms by simp
  next
    case (Inr u)
    then show ?thesis using a cs ms by (simp add: sleep_def)
  qed
qed

lemma try_find_click_ignores_timeout:
  "try_find_click env wait sel by_type timeout = try_find_click env wait sel by_type timeout'"
  by (simp add: try_find_click_def)

lemma try_find_click_waits_whole_wait:
  assumes "by_of by_type = Some by"
    and "raises env (length (calls w)) (WaitClickable by sel) = None"
    and "clickable env (length (calls w)) by sel = None"
  shows "try_find_click env wait sel by_type timeout w
    = (Inr False, sleep env wait (w\<lparr>calls := calls w @ [WaitClickable by sel]\<rparr>))"
  using assms
  by (simp add: try_find_click_def catch_def bnd_def return_def is_timeout_def
        until_clickable_def calling_def)

lemmas watch_simps = wait_for_download_completion_def size_loop.simps poll_loop.simps names_def
  first_accepted_def accepted_def suffix_of_def lower_def lower_char_def sleep_def bnd_def return_def

lemma unlink_each_returns:
  "(\<forall>n f e. raises env n (Unlink f) = Some e \<longrightarrow> is_Exception e) \<Longrightarrow>
   fst (unlink_each env fs w) = Inr ()"
proof (induction fs arbitrary: w)
  case Nil
  show ?case by (simp add: return_def)
next
  case (Cons f fs)
  let ?u = "catch (unlink env f) is_Exception (\<lambda>_. return ())"
  have "fst (?u w) = Inr ()"
    using Cons.prems
    by (auto simp: catch_def unlink_def calling_def return_def split: option.splits)
  then obtain w1 where "?u w = (Inr (), w1)" by (cases "?u w") simp
  then show ?case using Cons.IH [OF Cons.prems, of w1] by (simp add: bnd_def)
qed

lemma cleanup_loop_returns:
  "(\<forall>n f e. raises env n (Unlink f) = Some e \<longrightarrow> is_Exception e) \<Longrightarrow>
   fst (cleanup_loop env exts w) = Inr ()"
proof (induction exts arbitrary: w)
  case Nil
  show ?case by (simp add: return_def)
next
  case (Cons ext exts)
  let ?fs = "filter (glob_match ext) (names (dir w))"
  from unlink_each_returns [OF Cons.prems, of ?fs w]
  obtain w1 where "unlink_each env ?fs w = (Inr (), w1)"
    by (cases "unlink_each env ?fs w") simp
  then show ?case using Cons.IH [OF Cons.prems, of w1] by (simp add: bnd_def)
qed

lemma suffix_is_glob_match:
  assumes "suffix_of f = ext" and "ext \<noteq> []"
  shows "glob_match (CHR ''*'' # ext) f"
proof -
  let ?k = "length (takeWhile (\<lambda>c. c \<noteq> CHR ''.'') (rev f))"
  let ?i = "length f - 1 - ?k"
  from assms have i: "0 < ?i \<and> ?i < length f - 1" and e: "ext = drop ?i f"
    by (auto simp: suffix_of_def Let_def split: if_splits)
  from i have "length ext = length f - ?i" "length f - (length f - ?i) = ?i"
    using e by simp_all
  then show ?thesis using e by (simp add: glob_match_def)
qed

lemma extension_is_old_download:
  "suffix_of f \<in> set [''.xls'', ''.xlsx'', ''.csv''] \<Longrightarrow> old_download f"
  using suffix_is_glob_match [of f "suffix_of f"] by (auto simp: old_download_def)

lemmas tfc_defs = try_find_click_def catch_def bnd_def return_def is_timeout_def
  until_clickable_def calling_def click_with_fallback_def invoke_def effect_def
  logged_def resolves_def after_wait_def after_retry_def

lemma suc_forms:
  "n + 1 = Suc n" "n + 2 = Suc (Suc n)" "n + 3 = Suc (Suc (Suc n))"
  "n + 4 = Suc (Suc (Suc (Suc n)))"
  by simp_all

lemma tfc_invalid:
  "by_of by_type = None \<Longrightarrow> try_find_click env wait sel by_type timeout w = (Inr False, w)"
  by (simp add: tfc_defs)

lemma tfc_wait_raises:
  "by_of by_type = Some by \<Longrightarrow> raises env (length (calls w)) (WaitClickable by sel) = Some e \<Longrightarrow>
   try_find_click env wait sel by_type timeout w
     = (if e = TimeoutException then Inr False else Inl e, logged [WaitClickable by sel] w)"
  by (simp add: tfc_defs)

lemma tfc_wait_times_out:
  "by_of by_type = Some by \<Longrightarrow> raises env (length (calls w)) (WaitClickable by sel) = None \<Longrightarrow>
   clickable env (length (calls w)) by sel = None
     \<or> (\<exists>el ms. clickable env (length (calls w)) by sel = Some (el, ms) \<and> wait < ms) \<Longrightarrow>
   try_find_click env wait sel by_type timeout w
     = (Inr False, sleep env wait (logged [WaitClickable by sel] w))"
  by (auto simp: tfc_defs)

lemma tfc_first_click:
  "resolves env wait w by_type by sel el ms \<Longrightarrow>
   raises env (length (calls w) + 1) (Click el) = None \<Longrightarrow>
   try_find_click env wait sel by_type timeout w
     = (Inr True, logged [Click el] (after_wait env ms by sel w))"
  unfolding suc_forms by (simp add: tfc_defs sleep_def)

lemma tfc_first_click_interrupted:
  "resolves env wait w by_type by sel el ms \<Longrightarrow>
   raises env (length (calls w) + 1) (Click el) = Some e1 \<Longrightarrow> \<not> is_Exception e1 \<Longrightarrow>
   try_find_click env wait sel by_type timeout w
     = (Inl e1, logged [Click el] (after_wait env ms by sel w))"
  unfolding suc_forms by (cases e1) (simp_all add: tfc_defs sleep_def)

lemma tfc_scroll_raises:
  "resolves env wait w by_type by sel el ms \<Longrightarrow>
   raises env (length (calls w) + 1) (Click el) = Some e1 \<Longrightarrow> is_Exception e1 \<Longrightarrow>
   raises env (length (calls w) + 2) (ExecuteScript SCROLL_JS (Some el)) = Some e \<Longrightarrow>
   try_find_click env wait sel by_type timeout w
     = (if e = TimeoutException then Inr False else Inl e,
        logged [Click el, ExecuteScript SCROLL_JS (Some el)] (after_wait env ms by sel w))"
  unfolding suc_forms by (simp add: tfc_defs sleep_def)

lemma tfc_second_click:
  "resolves env wait w by_type by sel el ms \<Longrightarrow>
   raises env (length (calls w) + 1) (Click el) = Some e1 \<Longrightarrow> is_Exception e1 \<Longrightarrow>
   raises env (length (calls w) + 2) (ExecuteScript SCROLL_JS (Some el)) = None \<Longrightarrow>
   raises env (length (calls w) + 3) (Click el) = None \<Longrightarrow>
   try_find_click env wait sel by_type timeout w
     = (Inr True, logged [Click el] (after_retry env ms by sel el w))"
  unfolding suc_forms by (simp add: tfc_defs sleep_def)

lemma tfc_second_click_interrupted:
  "resolves env wait w by_type by sel el ms \<Longrightarrow>
   raises env (length (calls w) + 1) (Click el) = Some e1 \<Longrightarrow> is_Exception e1 \<Longrightarrow>
   raises env (length (calls w) + 2) (ExecuteScript SCROLL_JS (Some el)) = None \<Longrightarrow>
   raises env (length (calls w) + 3) (Click el) = Some e2 \<Longrightarrow> \<not> is_Exception e2 \<Longrightarrow>
   try_find_click env wait sel by_type timeout w
     = (Inl e2, logged [Click el] (after_retry env ms by sel el w))"
  unfolding suc_forms by (cases e2) (simp_all add: tfc_defs sleep_def)

lemma tfc_script_click:
  "resolves env wait w by_type by sel el ms \<Longrightarrow>
   raises env (length (calls w) + 1) (Click el) = Some e1 \<Longrightarrow> is_Exception e1 \<Longrightarrow>
   raises env (length (calls w) + 2) (ExecuteScript SCROLL_JS (Some el)) = None \<Longrightarrow>
   raises env (length (calls w) + 3) (Click el) = Some e2 \<Longrightarrow> is_Exception e2 \<Longrightarrow>
   try_find_click env wait sel by_type timeout w
     = (case raises env (length (calls w) + 4) (ExecuteScript CLICK_JS (Some el)) of
          None \<Rightarrow> Inr True
        | Some e \<Rightarrow> if e = TimeoutException then Inr False else Inl e,
        logged [Click el, ExecuteScript CLICK_JS (Some el)] (after_retry env ms by sel el w))"
  unfolding suc_forms by (simp add: tfc_defs sleep_def split: option.splits)

lemma all_below_Suc: "(\<forall>j < Suc n. P j) = (P 0 \<and> (\<forall>j < n. P (Suc j)))"
  by (auto simp: less_Suc_eq_0_disj)

lemma all_false_nth:
  "all_false env wait timeout cs w =
    (\<forall>j < length cs. fst (try_find_click env wait (snd (cs ! j)) (fst (cs ! j)) timeout
        (tried env wait timeout (take j cs) w)) = Inr False)"
proof (induction cs arbitrary: w)
  case Nil
  show ?case by simp
next
  case (Cons c cs)
  show ?case
    unfolding all_false.simps length_Cons all_below_Suc Cons.IH by simp
qed

lemma cfc_step_false:
  "fst (try_find_click env wait (snd c) (fst c) timeout w) = Inr False \<Longrightarrow>
   click_first_candidate env wait timeout (c # rest) w =
   click_first_candidate env wait timeout rest (snd (try_find_click env wait (snd c) (fst c) timeout w))"
  by (cases c; cases "try_find_click env wait (snd c) (fst c) timeout w")
     (simp add: bnd_def)

lemma cfc_step_other:
  "fst (try_find_click env wait (snd c) (fst c) timeout w) \<noteq> Inr False \<Longrightarrow>
   click_first_candidate env wait timeout (c # rest) w =
   try_find_click env wait (snd c) (fst c) timeout w"
proof -
  assume a: "fst (try_find_click env wait (snd c) (fst c) timeout w) \<noteq> Inr False"
  obtain r w1 where e: "try_find_click env wait (snd c) (fst c) timeout w = (r, w1)"
    by (cases "try_find_click env wait (snd c) (fst c) timeout w")
  show ?thesis
  proof (cases r)
    case (Inl x)
    then show ?thesis using e by (cases c) (simp add: bnd_def)
  next
    case (Inr b)
    then have "b" using a e by simp
    then show ?thesis using e Inr by (cases c) (simp add: bnd_def return_def)
  qed
qed

lemma cfc_after_false:
  "all_false env wait timeout pre w \<Longrightarrow>
   click_first_candidate env wait timeout (pre @ rest) w =
   click_first_candidate env wait timeout rest (tried env wait timeout pre w)"
proof (induction pre arbitrary: w)
  case Nil
  show ?case by simp
next
  case (Cons c pre)
  then show ?case by (simp add: cfc_step_false del: click_first_candidate.simps)
qed

lemma cfc_first_not_false:
  "all_false env wait timeout pre w \<Longrightarrow>
   fst (try_find_click env wait (snd c) (fst c) timeout (tried env wait timeout pre w)) \<noteq> Inr False \<Longrightarrow>
   click_first_candidate env wait timeout (pre @ c # rest) w =
   try_find_click env wait (snd c) (fst c) timeout (tried env wait timeout pre w)"
  by (simp add: cfc_after_false cfc_step_other del: click_first_candidate.simps)

lemma cfc_false_iff:
  "(fst (click_first_candidate env wait timeout cs w) = Inr False) = all_false env wait timeout cs w"
proof (induction cs arbitrary: w)
  case Nil
  show ?case by (simp add: return_def)
next
  case (Cons c cs)
  show ?case
  proof (cases "fst (try_find_click env wait (snd c) (fst c) timeout w) = Inr False")
    case True
    then show ?thesis using Cons.IH by (simp add: cfc_step_false del: click_first_candidate.simps)
  next
    case False
    then show ?thesis by (simp add: cfc_step_other del: click_first_candidate.simps)
  qed
qed

lemma cfc_all_false_world:
  "all_false env wait timeout cs w \<Longrightarrow>
   click_first_candidate env wait timeout cs w = (Inr False, tried env wait timeout cs w)"
  using cfc_after_false [of env wait timeout cs w "[]"] by (simp add: return_def)

lemma unresolved_all_false:
  "\<forall>c \<in> set pre. unresolved env wait c \<Longrightarrow>
   all_false env wait timeout pre w
   \<and> calls (tried env wait timeout pre w) = calls w @ map wait_call pre"
proof (induction pre arbitrary: w)
  case Nil
  show ?case by simp
next
  case (Cons c pre)
  obtain bt s where c: "c = (bt, s)" by (cases c)
  from Cons.prems have u: "unresolved env wait (bt, s)" by (simp add: c)
  note t = try_find_click_unresolved [OF u, of timeout w]
  from Cons.prems have "\<forall>c \<in> set pre. unresolved env wait c" by simp
  from Cons.IH [OF this, of "snd (try_find_click env wait s bt timeout w)"] t
  show ?case by (simp add: c)
qed

lemma try_find_click_acts_on_resolved:
  assumes "resolves env wait w by_type loc sel el ms"
  shows "\<exists>k. calls (snd (try_find_click env wait sel by_type timeout w))
      = calls w @ take (Suc (Suc k)) (tiers loc sel el)"
proof -
  from assms have b: "by_of by_type = Some loc"
    and u: "until_clickable env wait loc sel w = (Inr el, after_wait env ms loc sel w)"
    by (simp_all add: resolves_def until_clickable_def calling_def after_wait_def logged_def
          sleep_def)
  let ?w1 = "after_wait env ms loc sel w"
  have w1: "calls ?w1 = calls w @ [WaitClickable loc sel]"
    by (simp add: after_wait_def logged_def sleep_def)
  obtain r2 w2 where k: "click_with_fallback env el ?w1 = (r2, w2)"
    by (cases "click_with_fallback env el ?w1")
  from click_with_fallback_calls [of env el ?w1 loc sel]
  obtain k where "calls w2 = calls ?w1 @ take (Suc k) (tl (tiers loc sel el))"
    using k by auto
  then have "calls w2 = calls w @ take (Suc (Suc k)) (tiers loc sel el)"
    using w1 by (simp add: tiers_def)
  moreover have "snd (try_find_click env wait sel by_type timeout w) = w2"
    using u k b by (cases r2) (auto simp: try_find_click_def catch_def bnd_def return_def)
  ultimately show ?thesis by metis
qed

lemma cfc_resolved_candidate:
  assumes p: "\<forall>c \<in> set pre. unresolved env wait c"
    and r: "resolves env wait (tried env wait timeout pre w) by_type loc sel el ms"
    and t: "fst (try_find_click env wait sel by_type timeout (tried env wait timeout pre w)) = Inr True"
  shows "fst (click_first_candidate env wait timeout (pre @ (by_type, sel) # rest) w) = Inr True
    \<and> (\<exists>k. calls (snd (click_first_candidate env wait timeout (pre @ (by_type, sel) # rest) w))
          = calls w @ map wait_call pre @ take (Suc (Suc k)) (tiers loc sel el))"
proof -
  let ?W = "tried env wait timeout pre w"
  note a = unresolved_all_false [OF p, of timeout w]
  have e: "click_first_candidate env wait timeout (pre @ (by_type, sel) # rest) w
      = try_find_click env wait sel by_type timeout ?W"
    using cfc_first_not_false [of env wait timeout pre w "(by_type, sel)" rest] a t by simp
  from try_find_click_acts_on_resolved [OF r, of timeout]
  obtain k where "calls (snd (try_find_click env wait sel by_type timeout ?W))
      = calls ?W @ take (Suc (Suc k)) (tiers loc sel el)" by blast
  then show ?thesis using e t a by auto
qed

lemma removed_Nil [simp]: "removed env n [] g = False"
  by (simp add: removed_def)

lemma removed_Cons:
  "removed env n (f # fs) g
    = ((f = g \<and> raises env n (Unlink g) = None) \<or> removed env (Suc n) fs g)"
proof
  assume "removed env n (f # fs) g"
  then obtain i where i: "i < length (f # fs)" "(f # fs) ! i = g"
      "raises env (n + i) (Unlink g) = None"
    unfolding removed_def by blast
  show "(f = g \<and> raises env n (Unlink g) = None) \<or> removed env (Suc n) fs g"
  proof (cases i)
    case 0
    then show ?thesis using i by simp
  next
    case (Suc j)
    then have "j < length fs \<and> fs ! j = g \<and> raises env (Suc n + j) (Unlink g) = None"
      using i by simp
    then show ?thesis unfolding removed_def by blast
  qed
next
  assume "(f = g \<and> raises env n (Unlink g) = None) \<or> removed env (Suc n) fs g"
  then show "removed env n (f # fs) g"
  proof
    assume "f = g \<and> raises env n (Unlink g) = None"
    then have "0 < length (f # fs) \<and> (f # fs) ! 0 = g \<and> raises env (n + 0) (Unlink g) = None"
      by simp
    then show ?thesis unfolding removed_def by blast
  next
    assume "removed env (Suc n) fs g"
    then obtain j where "j < length fs" "fs ! j = g" "raises env (Suc n + j) (Unlink g) = None"
      unfolding removed_def by blast
    then have "Suc j < length (f # fs) \<and> (f # fs) ! Suc j = g
        \<and> raises env (n + Suc j) (Unlink g) = None" by simp
    then show ?thesis unfolding removed_def by blast
  qed
qed

lemma removed_append:
  "removed env n (xs @ ys) g = (removed env n xs g \<or> removed env (n + length xs) ys g)"
  by (induction xs arbitrary: n) (auto simp: removed_Cons)

lemma removed_in_set: "removed env n fs g \<Longrightarrow> g \<in> set fs"
  by (auto simp: removed_def)

lemma unlink_exact:
  assumes "catch (unlink env f) is_Exception (\<lambda>_. return ()) w = (Inr (), w1)"
  shows "calls w1 = calls w @ [Unlink f] \<and> clock w1 = clock w \<and> out w1 = out w
    \<and> dir w1 = (if raises env (length (calls w)) (Unlink f) = None
                then filter (\<lambda>p. fst p \<noteq> f) (dir w) else dir w)"
proof (cases "raises env (length (calls w)) (Unlink f)")
  case (Some e)
  then show ?thesis
    using assms by (auto simp: catch_def unlink_def calling_def return_def split: if_splits)
next
  case None
  show ?thesis
  proof (cases "f \<in> fst ` set (dir w)")
    case True
    then show ?thesis
      using assms None by (auto simp: catch_def unlink_def calling_def return_def)
  next
    case False
    then have "filter (\<lambda>p. fst p \<noteq> f) (dir w) = dir w"
      by (auto simp: filter_id_conv)
    then show ?thesis
      using assms None False by (auto simp: catch_def unlink_def calling_def return_def)
  qed
qed

lemma unlink_each_exact:
  "unlink_each env fs w = (Inr (), w') \<Longrightarrow>
   calls w' = calls w @ map Unlink fs \<and> clock w' = clock w \<and> out w' = out w
   \<and> dir w' = filter (\<lambda>p. \<not> removed env (length (calls w)) fs (fst p)) (dir w)"
proof (induction fs arbitrary: w)
  case Nil
  then show ?case by (simp add: return_def)
next
  case (Cons f fs)
  let ?u = "catch (unlink env f) is_Exception (\<lambda>_. return ())"
  obtain r w1 where u: "?u w = (r, w1)" by (cases "?u w")
  from Cons.prems have r: "r = Inr ()" using u by (cases r) (simp_all add: bnd_def)
  with Cons.prems u have rest: "unlink_each env fs w1 = (Inr (), w')" by (simp add: bnd_def)
  note s = unlink_exact [OF u [unfolded r]]
  note i = Cons.IH [OF rest]
  have l: "length (calls w1) = Suc (length (calls w))" using s by simp
  have "dir w' = filter (\<lambda>p. \<not> removed env (Suc (length (calls w))) fs (fst p)) (dir w1)"
    using i l by simp
  also have "\<dots> = filter (\<lambda>p. \<not> removed env (length (calls w)) (f # fs) (fst p)) (dir w)"
    using s by (auto simp: removed_Cons intro: filter_cong)
  finally show ?case using s i by simp
qed

lemma glob_match_last:
  assumes "glob_match (c # ext) name" and "ext \<noteq> []"
  shows "last name = last ext"
proof -
  from assms(1) have d: "drop (length name - length ext) name = ext"
    by (simp add: glob_match_def)
  have "name = take (length name - length ext) name @ ext"
    using d append_take_drop_id [of "length name - length ext" name] by simp
  then have "last name = last (take (length name - length ext) name @ ext)" by simp
  then show ?thesis using assms(2) by simp
qed

lemma patterns_exclusive:
  "\<not> (glob_match ''*.xls'' f \<and> glob_match ''*.xlsx'' f)"
  "\<not> (glob_match ''*.xls'' f \<and> glob_match ''*.csv'' f)"
  "\<not> (glob_match ''*.xlsx'' f \<and> glob_match ''*.csv'' f)"
  using glob_match_last [of "CHR ''*''" "''.xls''" f] glob_match_last [of "CHR ''*''" "''.xlsx''" f]
    glob_match_last [of "CHR ''*''" "''.csv''" f]
  by auto

lemma listing_after_unlinks:
  assumes "\<And>g. P g \<Longrightarrow> g \<notin> set fs"
  shows "filter P (names (filter (\<lambda>p. \<not> removed env n fs (fst p)) d)) = filter P (names d)"
proof -
  have "filter P (names (filter (\<lambda>p. \<not> removed env n fs (fst p)) d))
      = map fst (filter (\<lambda>p. P (fst p) \<and> \<not> removed env n fs (fst p)) d)"
    by (simp add: names_def filter_map comp_def conj_commute)
  also have "\<dots> = map fst (filter (\<lambda>p. P (fst p)) d)"
    using assms removed_in_set [of env n fs] by (auto intro!: arg_cong [where f = "map fst"] filter_cong)
  finally show ?thesis by (simp add: names_def filter_map comp_def)
qed

lemma cleanup_exact:
  assumes c: "cleanup_old_downloads env w = (Inr (), w')"
  shows "calls w' = calls w @ map Unlink (globbed (dir w)) \<and> clock w' = clock w \<and> out w' = out w
    \<and> dir w' = filter (\<lambda>p. \<not> removed env (length (calls w)) (globbed (dir w)) (fst p)) (dir w)"
proof -
  let ?n = "length (calls w)"
  let ?f1 = "filter (glob_match ''*.xls'') (names (dir w))"
  let ?f2 = "filter (glob_match ''*.xlsx'') (names (dir w))"
  let ?f3 = "filter (glob_match ''*.csv'') (names (dir w))"
  obtain r1 w1 where u1: "unlink_each env ?f1 w = (r1, w1)" by (cases "unlink_each env ?f1 w")
  from c u1 have r1: "r1 = Inr ()"
    by (cases r1) (simp_all add: cleanup_old_downloads_def bnd_def)
  note e1 = unlink_each_exact [OF u1 [unfolded r1]]
  have l2: "filter (glob_match ''*.xlsx'') (names (dir w1)) = ?f2"
    using e1 listing_after_unlinks [of "glob_match ''*.xlsx''" ?f1 env ?n "dir w"]
      patterns_exclusive(1) by auto
  obtain r2 w2 where u2: "unlink_each env ?f2 w1 = (r2, w2)" by (cases "unlink_each env ?f2 w1")
  from c u1 r1 u2 l2 have r2: "r2 = Inr ()"
    by (cases r2) (simp_all add: cleanup_old_downloads_def bnd_def)
  note e2 = unlink_each_exact [OF u2 [unfolded r2]]
  have d2: "dir w2 = filter (\<lambda>p. \<not> removed env ?n (?f1 @ ?f2) (fst p)) (dir w)"
    using e1 e2 by (auto simp: removed_append intro: filter_cong)
  have x3: "g \<notin> set (?f1 @ ?f2)" if "glob_match ''*.csv'' g" for g
    using that patterns_exclusive(2) [of g] patterns_exclusive(3) [of g] by simp
  have l3: "filter (glob_match ''*.csv'') (names (dir w2)) = ?f3"
    unfolding d2 by (rule listing_after_unlinks) (rule x3)
  have c1: "cleanup_old_downloads env w = cleanup_loop env [''*.xlsx'', ''*.csv''] w1"
    using u1 r1 by (simp only: cleanup_old_downloads_def cleanup_loop.simps bnd_def prod.case sum.case)
  have c2: "cleanup_loop env [''*.xlsx'', ''*.csv''] w1 = cleanup_loop env [''*.csv''] w2"
    using u2 r2 l2 by (simp only: cleanup_loop.simps bnd_def prod.case sum.case)
  have c3: "cleanup_loop env [''*.csv''] w2 = unlink_each env ?f3 w2"
    unfolding cleanup_loop.simps bnd_def return_def l3
    by (cases "unlink_each env ?f3 w2") (simp split: sum.splits)
  have u3: "unlink_each env ?f3 w2 = (Inr (), w')"
    using c c1 c2 c3 by simp
  note e3 = unlink_each_exact [OF u3]
  have l: "length (calls w2) = ?n + length (?f1 @ ?f2)" using e1 e2 by simp
  have "dir w' = filter (\<lambda>p. \<not> removed env (?n + length (?f1 @ ?f2)) ?f3 (fst p)) (dir w2)"
    using e3 unfolding l by blast
  also have "\<dots> = filter (\<lambda>p. \<not> removed env ?n ((?f1 @ ?f2) @ ?f3) (fst p)) (dir w)"
    unfolding d2 filter_filter removed_append [of env ?n "?f1 @ ?f2" ?f3]
    by (rule filter_cong) auto
  finally have d3: "dir w' = filter (\<lambda>p. \<not> removed env ?n (globbed (dir w)) (fst p)) (dir w)"
    by (simp only: globbed_def append_assoc)
  have "calls w' = calls w @ map Unlink (globbed (dir w))"
    using e1 e2 e3 by (simp add: globbed_def)
  moreover have "clock w' = clock w" "out w' = out w" using e1 e2 e3 by simp_all
  ultimately show ?thesis using d3 by blast
qed

lemma globbed_set: "set (globbed d) = {f \<in> set (names d). old_download f}"
  by (auto simp: globbed_def old_download_def)

lemma globbed_distinct: "distinct (names d) \<Longrightarrow> distinct (globbed d)"
  using patterns_exclusive by (auto simp: globbed_def)

lemma cleanup_survivor:
  assumes c: "cleanup_old_downloads env w = (Inr (), w')"
    and p: "p \<in> set (dir w)" and o: "old_download (fst p)"
  shows "(p \<in> set (dir w'))
      = (\<forall>i < length (globbed (dir w)). globbed (dir w) ! i = fst p
          \<longrightarrow> (\<exists>e. raises env (length (calls w) + i) (Unlink (fst p)) = Some e))"
    and "\<exists>i < length (globbed (dir w)). globbed (dir w) ! i = fst p"
proof -
  have "dir w' = filter (\<lambda>p. \<not> removed env (length (calls w)) (globbed (dir w)) (fst p)) (dir w)"
    using cleanup_exact [OF c] by blast
  then have "(p \<in> set (dir w')) = (\<not> removed env (length (calls w)) (globbed (dir w)) (fst p))"
    using p by simp
  then show "(p \<in> set (dir w'))
      = (\<forall>i < length (globbed (dir w)). globbed (dir w) ! i = fst p
          \<longrightarrow> (\<exists>e. raises env (length (calls w) + i) (Unlink (fst p)) = Some e))"
    by (auto simp: removed_def)
  have "fst p \<in> set (globbed (dir w))"
    using p o by (simp add: globbed_set names_def)
  then show "\<exists>i < length (globbed (dir w)). globbed (dir w) ! i = fst p"
    by (simp add: in_set_conv_nth)
qed

lemma cleanup_other_files:
  assumes c: "cleanup_old_downloads env w = (Inr (), w')"
    and q: "q \<in> set (dir w)" and o: "\<not> old_download (fst q)"
  shows "q \<in> set (dir w')"
proof -
  have "fst q \<notin> set (globbed (dir w))" using o by (simp add: globbed_set)
  then have "\<not> removed env (length (calls w)) (globbed (dir w)) (fst q)"
    using removed_in_set by blast
  then show ?thesis using cleanup_exact [OF c] q by simp
qed

section \<open>The claims\<close>



text \<open>
  C9. Whatever the run does, \<open>main\<close> calls \<open>driver.quit()\<close> exactly once, as its last
  call; an \<open>Exception\<close> of that call is swallowed, so the outcome of the run is the
  outcome of the \<open>try\<close> block.
\<close>

theorem driver_quit_exactly_once:
  "(\<exists>cs. calls (snd (main_with env opts w)) = calls w @ cs @ [Quit] \<and> Quit \<notin> set cs)
   \<and> ((\<forall>e. raises env (length (calls (snd (run_targets env 20000 opts w)))) Quit = Some e
          \<longrightarrow> is_Exception e)
        \<longrightarrow> fst (main_with env opts w) = fst (run_targets env 20000 opts w))"
proof (intro conjI impI)
  let ?w1 = "snd (run_targets env 20000 opts w)"
  have "extends not_quit any_msg w ?w1"
    using confined_run_targets [of env 20000 opts] by (simp add: confined_def)
  then obtain cs where cs: "calls ?w1 = calls w @ cs" "list_all not_quit cs"
    by (auto simp: extends_def)
  have "Quit \<notin> set cs" using cs(2) by (auto simp: list_all_iff not_quit_def)
  moreover have "calls (snd (main_with env opts w)) = calls w @ cs @ [Quit]"
    by (simp add: main_with_world quit_driver_frame cs(1))
  ultimately show "\<exists>cs. calls (snd (main_with env opts w)) = calls w @ cs @ [Quit] \<and> Quit \<notin> set cs"
    by blast
next
  let ?w1 = "snd (run_targets env 20000 opts w)"
  assume h: "\<forall>e. raises env (length (calls ?w1)) Quit = Some e \<longrightarrow> is_Exception e"
  have "fst (quit_driver env ?w1) = Inr ()"
    using h by (simp add: quit_driver_result split: option.splits)
  then show "fst (main_with env opts w) = fst (run_targets env 20000 opts w)"
    by (cases "run_targets env 20000 opts w"; cases "quit_driver env ?w1")
       (simp add: main_with_def try_finally_def)
qed

theorem driver_quit_after_interrupt_witness:
  "fst (main env_interrupt w0) = Inl KeyboardInterrupt
   \<and> calls (snd (main env_interrupt w0)) = [Get URL, Quit]"
proof -
  let ?opts = "[''Maker'', ''Vehicle Category'']"
  have r: "run_targets env_interrupt 20000 ?opts w0 =
      (Inl KeyboardInterrupt, \<lparr>clock = 0, calls = [Get URL], dir = [],
         out = [StartingCycle ''Maker'']\<rparr>)"
    by (simp add: prog_simps cycle_simps run_targets_def cleanup_old_downloads_def
          env_interrupt_def w0_def)
  have h: "\<forall>e. raises env_interrupt (length (calls (snd (run_targets env_interrupt 20000 ?opts w0))))
      Quit = Some e \<longrightarrow> is_Exception e"
    by (simp add: env_interrupt_def)
  from driver_quit_exactly_once [of env_interrupt ?opts w0] h
  have "fst (main_with env_interrupt ?opts w0) = Inl KeyboardInterrupt" by (simp add: r)
  moreover have "calls (snd (main_with env_interrupt ?opts w0)) = [Get URL, Quit]"
    by (simp add: main_with_world quit_driver_frame r)
  ultimately show ?thesis by (simp add: main_def)
qed



text \<open>
  C3, as the code has it. \<open>perform_download_cycle\<close> has no handler of its own at its
  boundary: an \<open>Exception\<close> of one of its steps leaves it and is caught by the handler
  around the call in the retry loop of \<open>main\<close>, which prints it, saves a snapshot named
  \<open>exception_<target>\<close> and goes on to the next attempt. No \<open>Exception\<close> leaves an
  attempt or the loop over the targets.
\<close>

theorem cycle_exceptions_caught_in_retry_loop:
  "(perform_download_cycle env wait opt True w = (Inl e, w1) \<and> is_Exception e \<longrightarrow>
      (\<exists>cs. calls (snd (attempt_once env wait opt a w))
            = calls w1 @ SaveScreenshot (''exception_'' @ opt) (clock w1) # cs)
    \<and> (\<exists>ms. out (snd (attempt_once env wait opt a w)) = out w1 @ ErrorUnexpected a opt e # ms)
    \<and> (fst (attempt_once env wait opt a w) = Inr None
        \<or> (\<exists>e'. fst (attempt_once env wait opt a w) = Inl e' \<and> \<not> is_Exception e')))
   \<and> (fst (attempt_once env wait opt a w) = Inl e \<longrightarrow> \<not> is_Exception e)
   \<and> (fst (options_loop env wait opts dl w) = Inl e \<longrightarrow> \<not> is_Exception e)"
proof (intro conjI impI)
  assume h: "perform_download_cycle env wait opt True w = (Inl e, w1) \<and> is_Exception e"
  then have c: "perform_download_cycle env wait opt True w = (Inl e, w1)" and e: "is_Exception e"
    by simp_all
  note d = attempt_once_diagnostic [OF c e, of a]
  from d show "\<exists>cs. calls (snd (attempt_once env wait opt a w))
            = calls w1 @ SaveScreenshot (''exception_'' @ opt) (clock w1) # cs" by blast
  from d show "\<exists>ms. out (snd (attempt_once env wait opt a w)) = out w1 @ ErrorUnexpected a opt e # ms"
    by blast
  from d show "fst (attempt_once env wait opt a w) = Inr None
        \<or> (\<exists>e'. fst (attempt_once env wait opt a w) = Inl e' \<and> \<not> is_Exception e')" by blast
next
  assume "fst (attempt_once env wait opt a w) = Inl e"
  then show "\<not> is_Exception e" by (rule attempt_once_no_Exception)
next
  assume "fst (options_loop env wait opts dl w) = Inl e"
  then show "\<not> is_Exception e" by (rule options_loop_no_Exception)
qed

theorem page_load_fault_caught_by_main_witness:
  "fst (attempt_once env_second 20000 ''Maker'' 1 w0) = Inr None
   \<and> (\<exists>cs. calls (snd (attempt_once env_second 20000 ''Maker'' 1 w0))
        = [Get URL, SaveScreenshot ''exception_Maker'' 0] @ cs)
   \<and> (\<exists>ms. out (snd (attempt_once env_second 20000 ''Maker'' 1 w0))
        = ErrorUnexpected 1 ''Maker'' WebDriverException # ms)"
proof -
  let ?w1 = "\<lparr>clock = 0, calls = [Get URL], dir = [], out = []\<rparr>"
  have c: "perform_download_cycle env_second 20000 ''Maker'' True w0
      = (Inl WebDriverException, ?w1)"
    by (simp add: perform_download_cycle_def bnd_def invoke_def calling_def env_second_def w0_def)
  have f: "fst (attempt_once env_second 20000 ''Maker'' 1 w0) = Inr None"
    by (simp add: prog_simps cycle_simps env_second_def w0_def)
  from cycle_exceptions_caught_in_retry_loop
    [of env_second 20000 "''Maker''" w0 WebDriverException ?w1 1] c
  have "(\<exists>cs. calls (snd (attempt_once env_second 20000 ''Maker'' 1 w0))
            = calls ?w1 @ SaveScreenshot (''exception_'' @ ''Maker'') (clock ?w1) # cs)
    \<and> (\<exists>ms. out (snd (attempt_once env_second 20000 ''Maker'' 1 w0))
            = out ?w1 @ ErrorUnexpected 1 ''Maker'' WebDriverException # ms)"
    by simp
  then show ?thesis using f by simp
qed

theorem cycle_raises_to_caller_counterexample:
  "perform_download_cycle env_second 20000 ''Maker'' True w0
    = (Inl WebDriverException, \<lparr>clock = 0, calls = [Get URL], dir = [], out = []\<rparr>)"
  by (simp add: perform_download_cycle_def bnd_def invoke_def calling_def env_second_def w0_def)

text \<open>
  C6. With the wait object of \<open>main\<close> (20 s) and the sub-timeout 8 s that
  \<open>perform_download_cycle\<close> passes, a candidate that never becomes clickable holds the
  loop for 20 s, not 8 s: the three candidates of the category selector take 60 s.
\<close>

theorem sub_timeout_ignored:
  "try_find_click env_never 20000 ''yaxisVar_label'' ''id'' 8000 w0
     = (Inr False, \<lparr>clock = 20000, calls = [WaitClickable ID ''yaxisVar_label''],
          dir = [], out = []\<rparr>)
   \<and> clock (snd (click_first_candidate env_never 20000 8000 YAXIS_LABEL_CANDIDATES w0)) = 60000
   \<and> try_find_click env_never 20000 ''yaxisVar_label'' ''id'' 8000
     = try_find_click env_never 20000 ''yaxisVar_label'' ''id'' 1"
  by (simp add: try_find_click_def by_of_def catch_def bnd_def return_def is_timeout_def
        until_clickable_def calling_def sleep_def env_never_def w0_def
        YAXIS_LABEL_CANDIDATES_def)

text \<open>
  C1. A file that grows at every sample is returned all the same once the timeout is
  reached: the inner loop of \<open>wait_for_download_completion\<close> ends on the timeout with
  \<open>stable_count\<close> at 0 and the function returns the file.
\<close>

theorem growing_file_returned_at_timeout:
  "wait_for_download_completion env_growing 25000 w0
     = (Inr (Some ''report.xls''),
        \<lparr>clock = 25000, calls = [], dir = [(''report.xls'', 25000)], out = []\<rparr>)
   \<and> (\<forall>t d. map_of (fs_step env_growing t d) ''report.xls'' = Some t)"
  by (simp add: watch_simps env_growing_def w0_def)

text \<open>
  C2. The file that was in the download directory before the export click is returned
  as the download: the listing \<open>before_files\<close> of line 224 is never consulted, and the
  watcher compares with the listing it takes itself after the click.
\<close>

theorem file_of_pre_click_listing_returned:
  "''old.xls'' \<in> set (names (dir w_old))
   \<and> fst (export_and_wait env_replaced 20000 ''Maker'' w_old) = Inr (Some ''old.xls'')
   \<and> calls (snd (export_and_wait env_replaced 20000 ''Maker'' w_old))
       = [WaitClickable ID ''vchgroupTable:xls'', Click 1]"
  by (simp add: prog_simps cycle_simps env_replaced_def w_old_def)

text \<open>
  C4, as the code has it. With \<open>n\<close> the number of calls made so far, the outcome of
  \<open>try_find_click\<close> is given row by row. An unknown locator kind: \<open>False\<close>, nothing
  done. The wait raises: \<open>False\<close> for \<open>TimeoutException\<close>, else the exception
  propagates. The element does not become clickable within the wait: \<open>False\<close>. The
  element resolves, and then the ladder: the direct click raises nothing: \<open>True\<close>, no
  further tier; it raises an \<open>Exception\<close>: scroll into view, 0.3 s pause, second direct
  click; that one raises nothing: \<open>True\<close>, no script click; it raises an \<open>Exception\<close>:
  the click through JavaScript, \<open>True\<close> when it raises nothing. A
  \<open>TimeoutException\<close> of the scroll or of the JavaScript click gives \<open>False\<close>; any
  other exception of these two, and whatever a direct click raises that is no
  \<open>Exception\<close>, propagates to the caller. In every case the calls are a prefix of the
  five calls \<open>tiers\<close>, and no \<open>TimeoutException\<close> leaves the function.
\<close>

theorem try_find_click_three_tiers:
  "(by_of by_type = None \<longrightarrow>
      try_find_click env wait sel by_type timeout w = (Inr False, w))
   \<and> (by_of by_type = Some loc
      \<and> raises env (length (calls w)) (WaitClickable loc sel) = Some e \<longrightarrow>
      try_find_click env wait sel by_type timeout w
        = (if e = TimeoutException then Inr False else Inl e, logged [WaitClickable loc sel] w))
   \<and> (by_of by_type = Some loc
      \<and> raises env (length (calls w)) (WaitClickable loc sel) = None
      \<and> (clickable env (length (calls w)) loc sel = None
         \<or> (\<exists>el ms. clickable env (length (calls w)) loc sel = Some (el, ms) \<and> wait < ms)) \<longrightarrow>
      try_find_click env wait sel by_type timeout w
        = (Inr False, sleep env wait (logged [WaitClickable loc sel] w)))
   \<and> (resolves env wait w by_type loc sel el ms
      \<and> raises env (length (calls w) + 1) (Click el) = None \<longrightarrow>
      try_find_click env wait sel by_type timeout w
        = (Inr True, logged [Click el] (after_wait env ms loc sel w)))
   \<and> (resolves env wait w by_type loc sel el ms
      \<and> raises env (length (calls w) + 1) (Click el) = Some e1 \<and> \<not> is_Exception e1 \<longrightarrow>
      try_find_click env wait sel by_type timeout w
        = (Inl e1, logged [Click el] (after_wait env ms loc sel w)))
   \<and> (resolves env wait w by_type loc sel el ms
      \<and> raises env (length (calls w) + 1) (Click el) = Some e1 \<and> is_Exception e1
      \<and> raises env (length (calls w) + 2) (ExecuteScript SCROLL_JS (Some el)) = Some e \<longrightarrow>
      try_find_click env wait sel by_type timeout w
        = (if e = TimeoutException then Inr False else Inl e,
           logged [Click el, ExecuteScript SCROLL_JS (Some el)] (after_wait env ms loc sel w)))
   \<and> (resolves env wait w by_type loc sel el ms
      \<and> raises env (length (calls w) + 1) (Click el) = Some e1 \<and> is_Exception e1
      \<and> raises env (length (calls w) + 2) (ExecuteScript SCROLL_JS (Some el)) = None
      \<and> raises env (length (calls w) + 3) (Click el) = None \<longrightarrow>
      try_find_click env wait sel by_type timeout w
        = (Inr True, logged [Click el] (after_retry env ms loc sel el w)))
   \<and> (resolves env wait w by_type loc sel el ms
      \<and> raises env (length (calls w) + 1) (Click el) = Some e1 \<and> is_Exception e1
      \<and> raises env (length (calls w) + 2) (ExecuteScript SCROLL_JS (Some el)) = None
      \<and> raises env (length (calls w) + 3) (Click el) = Some e2 \<and> \<not> is_Exception e2 \<longrightarrow>
      try_find_click env wait sel by_type timeout w
        = (Inl e2, logged [Click el] (after_retry env ms loc sel el w)))
   \<and> (resolves env wait w by_type loc sel el ms
      \<and> raises env (length (calls w) + 1) (Click el) = Some e1 \<and> is_Exception e1
      \<and> raises env (length (calls w) + 2) (ExecuteScript SCROLL_JS (Some el)) = None
      \<and> raises env (length (calls w) + 3) (Click el) = Some e2 \<and> is_Exception e2 \<longrightarrow>
      try_find_click env wait sel by_type timeout w
        = (case raises env (length (calls w) + 4) (ExecuteScript CLICK_JS (Some el)) of
             None \<Rightarrow> Inr True
           | Some e \<Rightarrow> if e = TimeoutException then Inr False else Inl e,
           logged [Click el, ExecuteScript CLICK_JS (Some el)] (after_retry env ms loc sel el w)))
   \<and> (by_of by_type = Some loc \<longrightarrow>
      (\<exists>el k. calls (snd (try_find_click env wait sel by_type timeout w))
         = calls w @ take (Suc k) (tiers loc sel el)))
   \<and> fst (try_find_click env wait sel by_type timeout w) \<noteq> Inl TimeoutException"
proof (intro conjI impI)
  assume "by_of by_type = None"
  then show "try_find_click env wait sel by_type timeout w = (Inr False, w)"
    by (rule tfc_invalid)
next
  assume "by_of by_type = Some loc
      \<and> raises env (length (calls w)) (WaitClickable loc sel) = Some e"
  then show "try_find_click env wait sel by_type timeout w
        = (if e = TimeoutException then Inr False else Inl e, logged [WaitClickable loc sel] w)"
    by (intro tfc_wait_raises) simp_all
next
  assume "by_of by_type = Some loc
      \<and> raises env (length (calls w)) (WaitClickable loc sel) = None
      \<and> (clickable env (length (calls w)) loc sel = None
         \<or> (\<exists>el ms. clickable env (length (calls w)) loc sel = Some (el, ms) \<and> wait < ms))"
  then show "try_find_click env wait sel by_type timeout w
        = (Inr False, sleep env wait (logged [WaitClickable loc sel] w))"
    by (intro tfc_wait_times_out) simp_all
next
  assume "resolves env wait w by_type loc sel el ms
      \<and> raises env (length (calls w) + 1) (Click el) = None"
  then show "try_find_click env wait sel by_type timeout w
        = (Inr True, logged [Click el] (after_wait env ms loc sel w))"
    using tfc_first_click by blast
next
  assume "resolves env wait w by_type loc sel el ms
      \<and> raises env (length (calls w) + 1) (Click el) = Some e1 \<and> \<not> is_Exception e1"
  then show "try_find_click env wait sel by_type timeout w
        = (Inl e1, logged [Click el] (after_wait env ms loc sel w))"
    using tfc_first_click_interrupted by blast
next
  assume "resolves env wait w by_type loc sel el ms
      \<and> raises env (length (calls w) + 1) (Click el) = Some e1 \<and> is_Exception e1
      \<and> raises env (length (calls w) + 2) (ExecuteScript SCROLL_JS (Some el)) = Some e"
  then show "try_find_click env wait sel by_type timeout w
        = (if e = TimeoutException then Inr False else Inl e,
           logged [Click el, ExecuteScript SCROLL_JS (Some el)] (after_wait env ms loc sel w))"
    using tfc_scroll_raises by blast
next
  assume "resolves env wait w by_type loc sel el ms
      \<and> raises env (length (calls w) + 1) (Click el) = Some e1 \<and> is_Exception e1
      \<and> raises env (length (calls w) + 2) (ExecuteScript SCROLL_JS (Some el)) = None
      \<and> raises env (length (calls w) + 3) (Click el) = None"
  then show "try_find_click env wait sel by_type timeout w
        = (Inr True, logged [Click el] (after_retry env ms loc sel el w))"
    using tfc_second_click by blast
next
  assume "resolves env wait w by_type loc sel el ms
      \<and> raises env (length (calls w) + 1) (Click el) = Some e1 \<and> is_Exception e1
      \<and> raises env (length (calls w) + 2) (ExecuteScript SCROLL_JS (Some el)) = None
      \<and> raises env (length (calls w) + 3) (Click el) = Some e2 \<and> \<not> is_Exception e2"
  then show "try_find_click env wait sel by_type timeout w
        = (Inl e2, logged [Click el] (after_retry env ms loc sel el w))"
    using tfc_second_click_interrupted by blast
next
  assume "resolves env wait w by_type loc sel el ms
      \<and> raises env (length (calls w) + 1) (Click el) = Some e1 \<and> is_Exception e1
      \<and> raises env (length (calls w) + 2) (ExecuteScript SCROLL_JS (Some el)) = None
      \<and> raises env (length (calls w) + 3) (Click el) = Some e2 \<and> is_Exception e2"
  then show "try_find_click env wait sel by_type timeout w
        = (case raises env (length (calls w) + 4) (ExecuteScript CLICK_JS (Some el)) of
             None \<Rightarrow> Inr True
           | Some e \<Rightarrow> if e = TimeoutException then Inr False else Inl e,
           logged [Click el, ExecuteScript CLICK_JS (Some el)] (after_retry env ms loc sel el w))"
    using tfc_script_click by blast
next
  assume "by_of by_type = Some loc"
  then show "\<exists>el k. calls (snd (try_find_click env wait sel by_type timeout w))
         = calls w @ take (Suc k) (tiers loc sel el)"
    by (rule try_find_click_calls)
next
  show "fst (try_find_click env wait sel by_type timeout w) \<noteq> Inl TimeoutException"
    by (rule try_find_click_never_timeout)
qed

theorem refresh_click_through_overlay_witness:
  "fst (try_find_click env_overlay 20000 ''j_idt61'' ''id'' 10000 w0) = Inr True
   \<and> calls (snd (try_find_click env_overlay 20000 ''j_idt61'' ''id'' 10000 w0))
      = tiers ID ''j_idt61'' 7
   \<and> clock (snd (try_find_click env_overlay 20000 ''j_idt61'' ''id'' 10000 w0)) = 300"
proof -
  have r: "resolves env_overlay 20000 w0 ''id'' ID ''j_idt61'' 7 0"
    by (simp add: resolves_def by_of_def env_overlay_def)
  have h: "raises env_overlay (length (calls w0) + 1) (Click 7) = Some ElementClickInterceptedException
      \<and> is_Exception ElementClickInterceptedException
      \<and> raises env_overlay (length (calls w0) + 2) (ExecuteScript SCROLL_JS (Some 7)) = None
      \<and> raises env_overlay (length (calls w0) + 3) (Click 7) = Some ElementClickInterceptedException
      \<and> raises env_overlay (length (calls w0) + 4) (ExecuteScript CLICK_JS (Some 7)) = None"
    by (simp add: env_overlay_def)
  from try_find_click_three_tiers
    [where by_type = "''id''" and env = env_overlay and wait = 20000 and sel = "''j_idt61''"
      and timeout = 10000 and w = w0 and loc = ID and el = 7 and ms = 0
      and ?e1.0 = ElementClickInterceptedException
      and ?e2.0 = ElementClickInterceptedException] r h
  have "try_find_click env_overlay 20000 ''j_idt61'' ''id'' 10000 w0
      = (Inr True, logged [Click 7, ExecuteScript CLICK_JS (Some 7)]
           (after_retry env_overlay 0 ID ''j_idt61'' 7 w0))"
    by simp
  then show ?thesis
    by (simp add: logged_def after_retry_def after_wait_def sleep_def tiers_def w0_def)
qed

theorem try_find_click_raises_counterexample:
  "fst (try_find_click env_stuck 20000 ''yaxisVar_label'' ''id'' 8000 w0) = Inl WebDriverException
   \<and> calls (snd (try_find_click env_stuck 20000 ''yaxisVar_label'' ''id'' 8000 w0))
      = tiers ID ''yaxisVar_label'' 7"
  by (simp add: try_find_click_def by_of_def catch_def bnd_def until_clickable_def calling_def
        w0_def env_stuck_def click_with_fallback_def invoke_def sleep_def effect_def return_def
        is_timeout_def SCROLL_JS_def CLICK_JS_def tiers_def)


text \<open>
  C5, as the code has it. The loop tries the candidates in the order of the list and
  stops at the first one for which \<open>try_find_click\<close> does not return \<open>False\<close>: its
  outcome (\<open>True\<close>, or an exception that \<open>try_find_click\<close> lets through) is the
  outcome of the loop, in the world that candidate left, so that no later candidate is
  touched. The loop returns \<open>False\<close> exactly when every candidate of the list, tried in
  its turn, returned \<open>False\<close>. Candidates whose wait times out return \<open>False\<close> after that
  one call. When the candidates before one are of that kind and that one resolves to an
  element and returns \<open>True\<close>, the calls are the waits of the earlier candidates in order,
  then the wait of that candidate and at least the direct click, all on the element it
  resolved to. When the loop returns \<open>False\<close>, the wait of every candidate of the list
  has been made.
\<close>

theorem candidates_tried_in_priority_order:
  "(all_false env wait timeout pre w
      \<and> fst (try_find_click env wait (snd c) (fst c) timeout (tried env wait timeout pre w))
          \<noteq> Inr False \<longrightarrow>
      click_first_candidate env wait timeout (pre @ c # rest) w
        = try_find_click env wait (snd c) (fst c) timeout (tried env wait timeout pre w))
   \<and> ((fst (click_first_candidate env wait timeout cs w) = Inr False)
        = all_false env wait timeout cs w)
   \<and> (all_false env wait timeout cs w \<longrightarrow>
        click_first_candidate env wait timeout cs w = (Inr False, tried env wait timeout cs w))
   \<and> (all_false env wait timeout cs w
        = (\<forall>j < length cs.
            fst (try_find_click env wait (snd (cs ! j)) (fst (cs ! j)) timeout
              (tried env wait timeout (take j cs) w)) = Inr False))
   \<and> ((\<forall>c \<in> set pre. unresolved env wait c) \<longrightarrow>
        all_false env wait timeout pre w
        \<and> calls (tried env wait timeout pre w) = calls w @ map wait_call pre)
   \<and> ((\<forall>c \<in> set pre. unresolved env wait c)
        \<and> resolves env wait (tried env wait timeout pre w) by_type loc sel el ms
        \<and> fst (try_find_click env wait sel by_type timeout (tried env wait timeout pre w))
            = Inr True \<longrightarrow>
        fst (click_first_candidate env wait timeout (pre @ (by_type, sel) # rest) w) = Inr True
        \<and> (\<exists>k. calls (snd (click_first_candidate env wait timeout
                    (pre @ (by_type, sel) # rest) w))
              = calls w @ map wait_call pre @ take (Suc (Suc k)) (tiers loc sel el)))
   \<and> (fst (click_first_candidate env wait timeout cs w) = Inr False
     \<longrightarrow> (\<forall>c \<in> set cs. \<forall>loc. by_of (fst c) = Some loc
          \<longrightarrow> WaitClickable loc (snd c) \<in> set (drop (length (calls w))
                (calls (snd (click_first_candidate env wait timeout cs w))))))"
proof (intro conjI impI ballI allI)
  assume "all_false env wait timeout pre w
      \<and> fst (try_find_click env wait (snd c) (fst c) timeout (tried env wait timeout pre w))
          \<noteq> Inr False"
  then show "click_first_candidate env wait timeout (pre @ c # rest) w
        = try_find_click env wait (snd c) (fst c) timeout (tried env wait timeout pre w)"
    using cfc_first_not_false by blast
next
  show "(fst (click_first_candidate env wait timeout cs w) = Inr False)
        = all_false env wait timeout cs w"
    by (rule cfc_false_iff)
next
  assume "all_false env wait timeout cs w"
  then show "click_first_candidate env wait timeout cs w = (Inr False, tried env wait timeout cs w)"
    by (rule cfc_all_false_world)
next
  show "all_false env wait timeout cs w
        = (\<forall>j < length cs.
            fst (try_find_click env wait (snd (cs ! j)) (fst (cs ! j)) timeout
              (tried env wait timeout (take j cs) w)) = Inr False)"
    by (rule all_false_nth)
next
  assume "\<forall>c \<in> set pre. unresolved env wait c"
  from unresolved_all_false [OF this, of timeout w]
  show "all_false env wait timeout pre w"
    and "calls (tried env wait timeout pre w) = calls w @ map wait_call pre" by simp_all
next
  assume h: "(\<forall>c \<in> set pre. unresolved env wait c)
        \<and> resolves env wait (tried env wait timeout pre w) by_type loc sel el ms
        \<and> fst (try_find_click env wait sel by_type timeout (tried env wait timeout pre w))
            = Inr True"
  then have p: "\<forall>c \<in> set pre. unresolved env wait c"
    and r: "resolves env wait (tried env wait timeout pre w) by_type loc sel el ms"
    and t: "fst (try_find_click env wait sel by_type timeout (tried env wait timeout pre w))
            = Inr True" by blast+
  note x = cfc_resolved_candidate [OF p r t, of rest]
  from x show "fst (click_first_candidate env wait timeout (pre @ (by_type, sel) # rest) w) = Inr True"
    by blast
  from x show "\<exists>k. calls (snd (click_first_candidate env wait timeout
                    (pre @ (by_type, sel) # rest) w))
              = calls w @ map wait_call pre @ take (Suc (Suc k)) (tiers loc sel el)" by blast
next
  fix c loc
  assume "fst (click_first_candidate env wait timeout cs w) = Inr False"
    and "c \<in> set cs" and "by_of (fst c) = Some loc"
  then show "WaitClickable loc (snd c) \<in> set (drop (length (calls w))
      (calls (snd (click_first_candidate env wait timeout cs w))))"
    by (rule click_first_candidate_exhausts)
qed

theorem export_control_second_candidate_witness:
  "fst (click_first_candidate env_drift 20000 8000 DOWNLOAD_CANDIDATES w0) = Inr True
   \<and> calls (snd (click_first_candidate env_drift 20000 8000 DOWNLOAD_CANDIDATES w0))
      = [WaitClickable ID ''vchgroupTable:xls'',
         WaitClickable XPATH (snd (DOWNLOAD_CANDIDATES ! 1)), Click 5]"
proof -
  let ?pre = "[(''id'', ''vchgroupTable:xls'')]"
  let ?sel = "snd (DOWNLOAD_CANDIDATES ! 1)"
  let ?rest = "drop 2 DOWNLOAD_CANDIDATES"
  let ?W = "tried env_drift 20000 8000 ?pre w0"
  have d: "DOWNLOAD_CANDIDATES = ?pre @ (''xpath'', ?sel) # ?rest"
    by (simp add: DOWNLOAD_CANDIDATES_def)
  have f: "\<forall>c \<in> set ?pre. unresolved env_drift 20000 c"
    by (simp add: unresolved_def by_of_def env_drift_def)
  have r: "resolves env_drift 20000 ?W ''xpath'' XPATH ?sel 5 100"
    by (simp add: resolves_def by_of_def env_drift_def)
  have c: "raises env_drift (length (calls ?W) + 1) (Click 5) = None"
    by (simp add: env_drift_def)
  have t: "try_find_click env_drift 20000 ?sel ''xpath'' 8000 ?W
      = (Inr True, logged [Click 5] (after_wait env_drift 100 XPATH ?sel ?W))"
    by (rule tfc_first_click [OF r c])
  note t0 = candidates_tried_in_priority_order
    [where env = env_drift and wait = 20000 and timeout = 8000 and pre = ?pre and w = w0
      and c = "(''xpath'', ?sel)" and rest = ?rest]
  from t0 f have a: "all_false env_drift 20000 8000 ?pre w0"
    and cw: "calls ?W = calls w0 @ map wait_call ?pre" by blast+
  from t0 a t have "click_first_candidate env_drift 20000 8000 (?pre @ (''xpath'', ?sel) # ?rest) w0
      = (Inr True, logged [Click 5] (after_wait env_drift 100 XPATH ?sel ?W))"
    by simp
  then show ?thesis unfolding d [symmetric] using cw
    by (simp add: logged_def after_wait_def sleep_def w0_def wait_call_def by_of_def)
qed

theorem resolved_candidate_abandoned_counterexample:
  "clickable env_abandoned 0 ID ''vchgroupTable:xls'' = Some (1, 0)
   \<and> fst (click_first_candidate env_abandoned 20000 8000 DOWNLOAD_CANDIDATES w0) = Inr True
   \<and> calls (snd (click_first_candidate env_abandoned 20000 8000 DOWNLOAD_CANDIDATES w0))
      = [WaitClickable ID ''vchgroupTable:xls'', Click 1, ExecuteScript SCROLL_JS (Some 1),
         WaitClickable XPATH (snd (DOWNLOAD_CANDIDATES ! 1)), Click 2]
   \<and> fst (click_first_candidate env_stuck 20000 8000 DOWNLOAD_CANDIDATES w0)
      = Inl WebDriverException"
  by (simp add: try_find_click_def by_of_def catch_def bnd_def until_clickable_def calling_def
        w0_def env_abandoned_def env_stuck_def click_with_fallback_def invoke_def sleep_def
        effect_def return_def is_timeout_def SCROLL_JS_def CLICK_JS_def DOWNLOAD_CANDIDATES_def)

text \<open>
  C10, as the code has it. \<open>cleanup_old_downloads\<close> is the first statement of the run,
  before any cycle, and it returns normally whenever \<open>unlink\<close> raises nothing but
  \<open>Exception\<close>s, which it swallows. When it returns, the calls it made are exactly one
  \<open>unlink\<close> for each entry of the directory listing that matches \<open>*.xls\<close>, then for each
  that matches \<open>*.xlsx\<close>, then for each that matches \<open>*.csv\<close>: the files whose names end in
  one of the three extensions and no other file, each once when the names of the listing
  are distinct. The directory afterwards is the directory before without the files for
  which one of these calls raised nothing, in the same order and with the same sizes;
  the clock and the console are unchanged. So a file with one of the three endings is
  still there exactly when every \<open>unlink\<close> call made for it raised, and there is such a
  call; a file with another ending is still there; and when no \<open>unlink\<close> raises, no file
  with one of the three endings is left. A name with one of the three extensions is a
  name with such an ending.
\<close>

theorem cleanup_removes_what_it_can_unlink:
  "((\<forall>n f e. raises env n (Unlink f) = Some e \<longrightarrow> is_Exception e)
      \<longrightarrow> fst (cleanup_old_downloads env w) = Inr ())
   \<and> (cleanup_old_downloads env w = (Inr (), w') \<longrightarrow>
        calls w' = calls w @ map Unlink (globbed (dir w))
        \<and> dir w' = filter (\<lambda>p. \<not> removed env (length (calls w)) (globbed (dir w)) (fst p)) (dir w)
        \<and> clock w' = clock w \<and> out w' = out w
        \<and> cycles_started w' = cycles_started w)
   \<and> set (globbed d) = {f \<in> set (names d). old_download f}
   \<and> (distinct (names d) \<longrightarrow> distinct (globbed d))
   \<and> (cleanup_old_downloads env w = (Inr (), w') \<and> p \<in> set (dir w) \<and> old_download (fst p) \<longrightarrow>
        (p \<in> set (dir w'))
          = (\<forall>i < length (globbed (dir w)). globbed (dir w) ! i = fst p
              \<longrightarrow> (\<exists>e. raises env (length (calls w) + i) (Unlink (fst p)) = Some e))
        \<and> (\<exists>i < length (globbed (dir w)). globbed (dir w) ! i = fst p))
   \<and> (cleanup_old_downloads env w = (Inr (), w') \<and> q \<in> set (dir w) \<and> \<not> old_download (fst q) \<longrightarrow>
        q \<in> set (dir w'))
   \<and> (cleanup_old_downloads env w = (Inr (), w') \<and> (\<forall>n f. raises env n (Unlink f) = None)
        \<longrightarrow> (\<forall>p \<in> set (dir w'). \<not> old_download (fst p)))
   \<and> run_targets env wait opts w =
        (case cleanup_old_downloads env w of
           (Inl e, w1) \<Rightarrow> (Inl e, w1)
         | (Inr _, w1) \<Rightarrow>
             bnd (options_loop env wait opts []) (\<lambda>downloaded_files.
             bnd (effect (summary downloaded_files)) (\<lambda>_.
             return downloaded_files)) w1)
   \<and> (suffix_of f \<in> set [''.xls'', ''.xlsx'', ''.csv''] \<longrightarrow> old_download f)"
proof -
  have a: "fst (cleanup_old_downloads env w) = Inr ()"
    if "\<forall>n f e. raises env n (Unlink f) = Some e \<longrightarrow> is_Exception e"
    using that unfolding cleanup_old_downloads_def by (rule cleanup_loop_returns)
  have b: "calls w' = calls w @ map Unlink (globbed (dir w))
        \<and> dir w' = filter (\<lambda>p. \<not> removed env (length (calls w)) (globbed (dir w)) (fst p)) (dir w)
        \<and> clock w' = clock w \<and> out w' = out w
        \<and> cycles_started w' = cycles_started w"
    if c: "cleanup_old_downloads env w = (Inr (), w')"
  proof -
    have "cycles_started w' = cycles_started w"
      using cleanup_frame [of env w] c by simp
    then show ?thesis using cleanup_exact [OF c] by blast
  qed
  have s: "(p \<in> set (dir w'))
          = (\<forall>i < length (globbed (dir w)). globbed (dir w) ! i = fst p
              \<longrightarrow> (\<exists>e. raises env (length (calls w) + i) (Unlink (fst p)) = Some e))
        \<and> (\<exists>i < length (globbed (dir w)). globbed (dir w) ! i = fst p)"
    if "cleanup_old_downloads env w = (Inr (), w') \<and> p \<in> set (dir w) \<and> old_download (fst p)"
    using that cleanup_survivor [of env w w' p] by blast
  have n: "q \<in> set (dir w')"
    if "cleanup_old_downloads env w = (Inr (), w') \<and> q \<in> set (dir w) \<and> \<not> old_download (fst q)"
    using that cleanup_other_files [of env w w' q] by blast
  have d: "\<forall>p \<in> set (dir w'). \<not> old_download (fst p)"
    if h: "cleanup_old_downloads env w = (Inr (), w') \<and> (\<forall>n f. raises env n (Unlink f) = None)"
  proof
    fix x assume x: "x \<in> set (dir w')"
    from h have c: "cleanup_old_downloads env w = (Inr (), w')" by blast
    have m: "x \<in> set (dir w)" using cleanup_exact [OF c] x by simp
    show "\<not> old_download (fst x)"
    proof
      assume o: "old_download (fst x)"
      from cleanup_survivor(2) [OF c m o]
      obtain i where i: "i < length (globbed (dir w))" "globbed (dir w) ! i = fst x" by blast
      from cleanup_survivor(1) [OF c m o] x i
      have "\<exists>e. raises env (length (calls w) + i) (Unlink (fst x)) = Some e" by blast
      then show False using h by simp
    qed
  qed
  have e: "run_targets env wait opts w =
        (case cleanup_old_downloads env w of
           (Inl e, w1) \<Rightarrow> (Inl e, w1)
         | (Inr _, w1) \<Rightarrow>
             bnd (options_loop env wait opts []) (\<lambda>downloaded_files.
             bnd (effect (summary downloaded_files)) (\<lambda>_.
             return downloaded_files)) w1)"
    by (simp add: run_targets_def bnd_def [of "cleanup_old_downloads env"])
  have g: "set (globbed d) = {f \<in> set (names d). old_download f}" by (rule globbed_set)
  have h: "distinct (names d) \<longrightarrow> distinct (globbed d)" using globbed_distinct by blast
  have x: "suffix_of f \<in> set [''.xls'', ''.xlsx'', ''.csv''] \<longrightarrow> old_download f"
    using extension_is_old_download by blast
  show ?thesis
    apply (intro conjI)
    subgoal using a by blast
    subgoal using b by blast
    subgoal by (rule g)
    subgoal by (rule h)
    subgoal using s by blast
    subgoal using n by blast
    subgoal using d by blast
    subgoal by (rule e)
    subgoal by (rule x)
    done
qed

theorem cleanup_keeps_other_files_witness:
  "fst (cleanup_old_downloads env_never w_two) = Inr ()
   \<and> calls (snd (cleanup_old_downloads env_never w_two)) = [Unlink ''old.xls'']
   \<and> dir (snd (cleanup_old_downloads env_never w_two)) = [(''notes.txt'', 3)]
   \<and> (''old.xls'', 10) \<notin> set (dir (snd (cleanup_old_downloads env_never w_two)))
   \<and> (''notes.txt'', 3) \<in> set (dir (snd (cleanup_old_downloads env_never w_two)))"
proof -
  let ?w' = "snd (cleanup_old_downloads env_never w_two)"
  note t = cleanup_removes_what_it_can_unlink
    [where env = env_never and w = w_two and w' = ?w' and d = "dir w_two"
      and p = "(''old.xls'', 10)" and q = "(''notes.txt'', 3)" and f = "''old.xls''"
      and wait = 20000 and opts = "[]"]
  have r: "\<forall>n f. raises env_never n (Unlink f) = None" by (simp add: env_never_def)
  then have "\<forall>n f e. raises env_never n (Unlink f) = Some e \<longrightarrow> is_Exception e" by simp
  with t have f: "fst (cleanup_old_downloads env_never w_two) = Inr ()" by blast
  then have c: "cleanup_old_downloads env_never w_two = (Inr (), ?w')" by (simp add: prod_eq_iff)
  have o: "old_download ''old.xls''" "\<not> old_download ''notes.txt''"
    by (simp_all add: old_download_def glob_match_def)
  have m: "(''old.xls'', 10) \<in> set (dir w_two)" "(''notes.txt'', 3) \<in> set (dir w_two)"
    by (simp_all add: w_two_def)
  have g: "globbed (dir w_two) = [''old.xls'']"
    by (simp add: globbed_def names_def glob_match_def w_two_def)
  have x: "removed env_never (length (calls w_two)) [''old.xls''] s = (s = ''old.xls'')" for s
    using r by (auto simp: removed_def)
  from t c have "calls ?w' = calls w_two @ map Unlink (globbed (dir w_two))" by blast
  then have k: "calls ?w' = [Unlink ''old.xls'']" unfolding g by (simp add: w_two_def)
  from t c have "dir ?w' = filter (\<lambda>p. \<not> removed env_never (length (calls w_two))
      (globbed (dir w_two)) (fst p)) (dir w_two)" by blast
  then have l: "dir ?w' = [(''notes.txt'', 3)]" unfolding g x by (simp add: w_two_def)
  have "\<not> old_download (fst (''notes.txt'', 3::nat))" using o(2) by simp
  with t c m(2) have y: "(''notes.txt'', 3) \<in> set (dir ?w')" by blast
  from t c r have "\<forall>p \<in> set (dir ?w'). \<not> old_download (fst p)" by blast
  then have z: "(''old.xls'', 10) \<notin> set (dir ?w')" using o(1) by force
  show ?thesis using f k l y z by blast
qed

theorem locked_old_download_survives_counterexample:
  "old_download ''old.xls''
   \<and> fst (main env_locked w_old) = Inr []
   \<and> dir (snd (main env_locked w_old)) = [(''old.xls'', 10)]"
  by (simp add: prog_simps cycle_simps main_def main_with_def run_targets_def quit_driver_def
        cleanup_old_downloads_def summary_def glob_match_def old_download_def
        env_locked_def w_old_def)

end
